theory Spec2Isabelle
  imports
    Main
    "HOL-Library.Char_ord"
    "HOL-Library.List_Lexorder"
    "HOL-Library.FSet"
    "HOL-Library.Multiset"
begin

section \<open>The activity replayer of \<^verbatim>\<open>scripts/generate_poly_repo.py\<close>\<close>

text \<open>
  The script fetches a feed of events, keeps the push events, sorts them by their
  \<^verbatim>\<open>created_at\<close> string and replays them as git commits, one branch per repository
  short name, at most \<^verbatim>\<open>MAX_REPOS\<close> branches, and finally merges the branches
  into \<^verbatim>\<open>main\<close>.

  Strings are \<open>char list\<close>; Python compares strings code point by code point, a proper
  prefix being smaller, which is the lexicographic order of \<open>HOL-Library.List_Lexorder\<close>
  over the order of \<open>HOL-Library.Char_ord\<close>. Python sets are finite sets (\<open>fset\<close>).
\<close>

subsection \<open>Configuration\<close>

definition MAX_REPOS :: nat where
  "MAX_REPOS = 5"

subsection \<open>String helpers: \<^verbatim>\<open>str.split(sep)\<close> for a one-character separator\<close>

text \<open>
  \<open>split_from sep cur s\<close> splits \<open>s\<close> at every \<open>sep\<close>; \<open>cur\<close> is the segment read so
  far. As in Python the result is never empty: \<^verbatim>\<open>"".split("/") == [""]\<close> and
  \<^verbatim>\<open>"a/".split("/") == ["a", ""]\<close>.
\<close>

fun split_from :: "char \<Rightarrow> string \<Rightarrow> string \<Rightarrow> string list" where
  "split_from sep cur [] = [cur]"
| "split_from sep cur (c # cs) =
     (if c = sep then cur # split_from sep [] cs else split_from sep (cur @ [c]) cs)"

definition str_split :: "char \<Rightarrow> string \<Rightarrow> string list" where
  "str_split sep s = split_from sep [] s"

text \<open>\<^verbatim>\<open>repo_name.split("/")[-1]\<close> (line 77).\<close>

definition short_name_of :: "string \<Rightarrow> string" where
  "short_name_of repo_name = last (str_split CHR ''/'' repo_name)"

text \<open>\<^verbatim>\<open>commit["message"].split("\n")[0]\<close> (line 106).\<close>

definition first_line :: "string \<Rightarrow> string" where
  "first_line msg = hd (str_split (CHR 0x0A) msg)"

subsection \<open>Events\<close>

text \<open>
  The fields of an event object that the script reads: \<^verbatim>\<open>e["type"]\<close>,
  \<^verbatim>\<open>e["repo"]["name"]\<close>, \<^verbatim>\<open>e["created_at"]\<close> and
  \<^verbatim>\<open>e["payload"].get("commits", [])\<close>, where \<open>None\<close> stands for a payload without the
  key \<^verbatim>\<open>commits\<close>. An object that lacks one of the other keys is outside this type.
\<close>

record commit =
  message :: string

record event =
  event_type :: string
  repo_name :: string
  created_at :: string
  commits :: "commit list option"

text \<open>What \<^verbatim>\<open>requests.get\<close>, \<^verbatim>\<open>raise_for_status\<close> and \<^verbatim>\<open>resp.json()\<close> deliver
  (lines 24 to 30): an exception, or the decoded list of events.\<close>

datatype feed = FetchFailed | Fetched "event list"

subsection \<open>The history store: operations, failures and the log\<close>

text \<open>
  Every effect of the script on the output directory, in the order of the source:
  \<^item> \<open>RmTree\<close>: \<^verbatim>\<open>shutil.rmtree(OUTPUT_REPO_DIR)\<close>; \<open>MakeDirs\<close>: \<^verbatim>\<open>os.makedirs(OUTPUT_REPO_DIR)\<close>;
  \<^item> \<open>GitInit\<close>: \<^verbatim>\<open>git init\<close>; \<open>GitConfig k v\<close>: \<^verbatim>\<open>git config k v\<close>;
  \<^item> \<open>GitCommit m d\<close>: \<^verbatim>\<open>git commit --allow-empty -m m\<close> with \<^verbatim>\<open>GIT_AUTHOR_DATE\<close> and
    \<^verbatim>\<open>GIT_COMMITTER_DATE\<close> set to \<open>d\<close> (record-change);
  \<^item> \<open>GitBranchM n\<close>: \<^verbatim>\<open>git branch -M n\<close>;
  \<^item> \<open>GitCheckout n\<close>: \<^verbatim>\<open>git checkout n\<close> (switch-timeline);
  \<^item> \<open>GitCheckoutB n\<close>: \<^verbatim>\<open>git checkout -b n\<close> (create-timeline);
  \<^item> \<open>GitMerge ns\<close>: \<^verbatim>\<open>git merge --no-edit ns\<close> (merge-timelines).
\<close>

datatype op =
    RmTree
  | MakeDirs
  | GitInit
  | GitConfig string string
  | GitCommit string string
  | GitBranchM string
  | GitCheckout string
  | GitCheckoutB string
  | GitMerge "string list"

text \<open>The log lists every operation issued, with \<open>True\<close> when it succeeded.\<close>

type_synonym trace = "(op \<times> bool) list"

text \<open>
  The environment is a parameter: \<open>ok tr c\<close> says whether operation \<open>c\<close> succeeds after
  the log \<open>tr\<close>. Nothing is assumed about it.
\<close>

type_synonym adapter = "trace \<Rightarrow> op \<Rightarrow> bool"

datatype error = FeedError | EmptyHistoryError | AdapterError op

type_synonym 'a result = "(error + 'a) \<times> trace"

text \<open>
  \<^verbatim>\<open>run_cmd\<close> (lines 15 to 20): \<^verbatim>\<open>subprocess.check_call\<close> raises when the command
  exits with a non-zero status. The two file-system calls raise in the same way.
\<close>

definition run_cmd :: "adapter \<Rightarrow> op \<Rightarrow> trace \<Rightarrow> unit result" where
  "run_cmd ok c tr =
     (if ok tr c then (Inr (), tr @ [(c, True)])
      else (Inl (AdapterError c), tr @ [(c, False)]))"

text \<open>Sequencing: an exception of the first part skips the rest.\<close>

definition and_then :: "'a result \<Rightarrow> ('a \<Rightarrow> trace \<Rightarrow> 'b result) \<Rightarrow> 'b result" where
  "and_then r f = (case r of (Inl e, tr) \<Rightarrow> (Inl e, tr) | (Inr a, tr) \<Rightarrow> f a tr)"

subsection \<open>Initialising the repository (lines 47 to 67)\<close>

definition init_repo :: "adapter \<Rightarrow> bool \<Rightarrow> string \<Rightarrow> trace \<Rightarrow> unit result" where
  "init_repo ok dir_exists first_date tr =
     and_then (if dir_exists then run_cmd ok RmTree tr else (Inr (), tr)) (\<lambda>_ tr.
     and_then (run_cmd ok MakeDirs tr) (\<lambda>_ tr.
     and_then (run_cmd ok GitInit tr) (\<lambda>_ tr.
     and_then (run_cmd ok (GitConfig ''user.email'' ''bot@example.com'') tr) (\<lambda>_ tr.
     and_then (run_cmd ok (GitConfig ''user.name'' ''ActivityBot'') tr) (\<lambda>_ tr.
     and_then (run_cmd ok (GitCommit ''Init History'' first_date) tr) (\<lambda>_ tr.
     run_cmd ok (GitBranchM ''main'') tr))))))"

subsection \<open>The replay loop (lines 69 to 112)\<close>

record alloc =
  repos_seen :: "string fset"
  created_branches :: "string fset"
  active_branches :: "string fset"

definition init_alloc :: alloc where
  "init_alloc = \<lparr>repos_seen = {||}, created_branches = {||}, active_branches = {||}\<rparr>"

text \<open>Lines 105 to 112: one commit per entry, all with the event's timestamp.\<close>

fun replay_commits :: "adapter \<Rightarrow> string \<Rightarrow> string \<Rightarrow> commit list \<Rightarrow> trace \<Rightarrow> unit result" where
  "replay_commits ok short_name timestamp [] tr = (Inr (), tr)"
| "replay_commits ok short_name timestamp (c # cs) tr =
     and_then (run_cmd ok (GitCommit (short_name @ '': '' @ first_line (message c)) timestamp) tr)
       (\<lambda>_ tr. replay_commits ok short_name timestamp cs tr)"

text \<open>Lines 100 to 103: the commits of the payload, or one placeholder.\<close>

definition commits_of :: "event \<Rightarrow> commit list" where
  "commits_of ev =
     (let cs = (case commits ev of None \<Rightarrow> [] | Some cs \<Rightarrow> cs)
      in if cs = [] then [\<lparr>message = ''Update''\<rparr>] else cs)"

text \<open>The test of lines 80 and 81 that ends in \<^verbatim>\<open>continue\<close>.\<close>

definition dropped :: "alloc \<Rightarrow> string \<Rightarrow> bool" where
  "dropped st short_name \<longleftrightarrow> short_name |\<notin>| repos_seen st \<and> fcard (repos_seen st) \<ge> MAX_REPOS"

text \<open>Lines 86 to 94.\<close>

definition manage_branch :: "adapter \<Rightarrow> string \<Rightarrow> alloc \<Rightarrow> trace \<Rightarrow> alloc result" where
  "manage_branch ok short_name st tr =
     (if short_name |\<notin>| created_branches st then
        and_then (run_cmd ok (GitCheckout ''main'') tr) (\<lambda>_ tr.
        and_then (run_cmd ok (GitCheckoutB short_name) tr) (\<lambda>_ tr.
          (Inr (st\<lparr>created_branches := finsert short_name (created_branches st),
                   active_branches := finsert short_name (active_branches st)\<rparr>), tr)))
      else
        and_then (run_cmd ok (GitCheckout short_name) tr) (\<lambda>_ tr. (Inr st, tr)))"

text \<open>One iteration of the loop body, lines 76 to 112.\<close>

definition process_event :: "adapter \<Rightarrow> event \<Rightarrow> alloc \<Rightarrow> trace \<Rightarrow> alloc result" where
  "process_event ok ev st tr =
     (let short_name = short_name_of (repo_name ev) in
      if dropped st short_name then (Inr st, tr)
      else
        let st1 = (if short_name |\<notin>| repos_seen st
                   then st\<lparr>repos_seen := finsert short_name (repos_seen st)\<rparr> else st)
        in and_then (manage_branch ok short_name st1 tr) (\<lambda>st2 tr.
           and_then (replay_commits ok short_name (created_at ev) (commits_of ev) tr) (\<lambda>_ tr.
             (Inr st2, tr))))"

fun replay_events :: "adapter \<Rightarrow> event list \<Rightarrow> alloc \<Rightarrow> trace \<Rightarrow> alloc result" where
  "replay_events ok [] st tr = (Inr st, tr)"
| "replay_events ok (ev # evs) st tr =
     and_then (process_event ok ev st tr) (\<lambda>st tr. replay_events ok evs st tr)"

subsection \<open>The final merge (lines 114 to 128)\<close>

text \<open>
  A failing \<^verbatim>\<open>git checkout main\<close> raises; a failing merge is caught by the
  \<^verbatim>\<open>try\<close>/\<^verbatim>\<open>except\<close> of lines 125 to 128, which prints a message and goes on.
\<close>

definition reconcile :: "adapter \<Rightarrow> string fset \<Rightarrow> trace \<Rightarrow> unit result" where
  "reconcile ok active tr =
     and_then (run_cmd ok (GitCheckout ''main'') tr) (\<lambda>_ tr.
       if active \<noteq> {||} then
         (let branches_to_merge = sorted_list_of_fset active
          in case run_cmd ok (GitMerge branches_to_merge) tr of (_, tr) \<Rightarrow> (Inr (), tr))
       else (Inr (), tr))"

subsection \<open>The whole run\<close>

text \<open>Lines 33 and 36: the filter, then the stable sort of \<^verbatim>\<open>list.sort(key=...)\<close>.\<close>

definition push_events_of :: "event list \<Rightarrow> event list" where
  "push_events_of events = sort_key created_at (filter (\<lambda>e. event_type e = ''PushEvent'') events)"

record run =
  outcome :: "error option"
  log :: trace

text \<open>
  The exit status: \<^verbatim>\<open>sys.exit(1)\<close> at lines 30 and 43, status 1 for an uncaught
  exception, and 0 when \<^verbatim>\<open>main\<close> returns.
\<close>

definition exit_code :: "run \<Rightarrow> nat" where
  "exit_code r = (case outcome r of None \<Rightarrow> 0 | Some _ \<Rightarrow> 1)"

definition finish :: "'a result \<Rightarrow> run" where
  "finish r = (case r of (Inl e, tr) \<Rightarrow> \<lparr>outcome = Some e, log = tr\<rparr>
                       | (Inr _, tr) \<Rightarrow> \<lparr>outcome = None, log = tr\<rparr>)"

definition main :: "adapter \<Rightarrow> bool \<Rightarrow> feed \<Rightarrow> run" where
  "main ok dir_exists fd =
     (case fd of
        FetchFailed \<Rightarrow> \<lparr>outcome = Some FeedError, log = []\<rparr>
      | Fetched events \<Rightarrow>
         (case push_events_of events of
            [] \<Rightarrow> \<lparr>outcome = Some EmptyHistoryError, log = []\<rparr>
          | first # rest \<Rightarrow>
              finish
                (and_then (init_repo ok dir_exists (created_at first) []) (\<lambda>_ tr.
                 and_then (replay_events ok (first # rest) init_alloc tr) (\<lambda>st tr.
                 reconcile ok (active_branches st) tr)))))"

subsection \<open>Reading the log: which change was recorded on which timeline\<close>

text \<open>
  Modelled from the spec: the history store itself (git) is an external tool, and the
  script only issues operations. The table of operations of the specification gives
  their effect: switch-timeline sets the current pointer, create-timeline makes a new
  timeline and (as \<^verbatim>\<open>git checkout -b\<close> does) makes it current, and record-change
  appends a change to the current timeline. \<^verbatim>\<open>git branch -M\<close> renames the current
  timeline. Only operations that succeeded have an effect. A merge records no change
  of its own here: it is the reconciliation, not a record-change.
\<close>

record store =
  current :: string
  authored :: "(string \<times> string \<times> string) list"

definition init_store :: store where
  "init_store = \<lparr>current = ''master'', authored = []\<rparr>"

fun apply_op :: "op \<Rightarrow> store \<Rightarrow> store" where
  "apply_op (GitCommit m d) s = s\<lparr>authored := authored s @ [(current s, m, d)]\<rparr>"
| "apply_op (GitCheckout n) s = s\<lparr>current := n\<rparr>"
| "apply_op (GitCheckoutB n) s = s\<lparr>current := n\<rparr>"
| "apply_op (GitBranchM n) s =
     s\<lparr>current := n,
       authored := map (\<lambda>(t, c). (if t = current s then n else t, c)) (authored s)\<rparr>"
| "apply_op GitInit s = init_store"
| "apply_op RmTree s = init_store"
| "apply_op MakeDirs s = s"
| "apply_op (GitConfig k v) s = s"
| "apply_op (GitMerge ns) s = s"

fun replay_trace :: "store \<Rightarrow> trace \<Rightarrow> store" where
  "replay_trace s [] = s"
| "replay_trace s ((c, b) # tr) = replay_trace (if b then apply_op c s else s) tr"

definition store_of :: "trace \<Rightarrow> store" where
  "store_of tr = replay_trace init_store tr"

text \<open>The changes recorded on timeline \<open>n\<close>, as (message, authoredAt), in recording order.\<close>

definition recorded_on :: "string \<Rightarrow> trace \<Rightarrow> (string \<times> string) list" where
  "recorded_on n tr = map snd (filter (\<lambda>(t, c). t = n) (authored (store_of tr)))"

text \<open>The create-timeline operations issued in a log.\<close>

fun is_create :: "op \<Rightarrow> bool" where
  "is_create (GitCheckoutB n) = True"
| "is_create _ = False"

fun is_merge :: "op \<Rightarrow> bool" where
  "is_merge (GitMerge ns) = True"
| "is_merge _ = False"

definition created_count :: "trace \<Rightarrow> nat" where
  "created_count tr = length (filter (\<lambda>(c, b). is_create c) tr)"

section \<open>Auxiliary definitions\<close>

text \<open>
  Names for the pieces of a log that the proofs speak about, and the concrete feeds,
  states and environments that the theorems are instantiated at.
\<close>

definition commit_ops :: "string \<Rightarrow> string \<Rightarrow> commit list \<Rightarrow> trace" where
  "commit_ops sn ts cs = map (\<lambda>c. (GitCommit (sn @ '': '' @ first_line (message c)) ts, True)) cs"

definition switch_ops :: "alloc \<Rightarrow> string \<Rightarrow> trace" where
  "switch_ops st sn =
     (if sn |\<notin>| created_branches st then [(GitCheckout ''main'', True), (GitCheckoutB sn, True)]
      else [(GitCheckout sn, True)])"

fun step_op :: "string \<Rightarrow> op \<Rightarrow> bool" where
  "step_op ts (GitCommit m d) = (d = ts)"
| "step_op ts (GitCheckout n) = True"
| "step_op ts (GitCheckoutB n) = True"
| "step_op ts _ = False"

definition step_log :: "string \<Rightarrow> trace \<Rightarrow> bool" where
  "step_log ts ext = list_all (\<lambda>(c, b). step_op ts c) ext"

definition cap_inv :: "alloc \<Rightarrow> trace \<Rightarrow> bool" where
  "cap_inv st tr \<longleftrightarrow>
     repos_seen st = created_branches st \<and> created_count tr = fcard (created_branches st)
       \<and> fcard (repos_seen st) \<le> MAX_REPOS"

fun run_seq :: "adapter \<Rightarrow> op list \<Rightarrow> trace \<Rightarrow> unit result" where
  "run_seq ok [] tr = (Inr (), tr)"
| "run_seq ok (c # cs) tr = and_then (run_cmd ok c tr) (\<lambda>_ tr. run_seq ok cs tr)"

definition init_ops :: "bool \<Rightarrow> string \<Rightarrow> op list" where
  "init_ops dir_exists d =
     (if dir_exists then [RmTree] else []) @
     [MakeDirs, GitInit, GitConfig ''user.email'' ''bot@example.com'',
      GitConfig ''user.name'' ''ActivityBot'', GitCommit ''Init History'' d, GitBranchM ''main'']"

definition all_ok :: adapter where
  "all_ok tr c = True"

definition push_at :: "string \<Rightarrow> string \<Rightarrow> commit list option \<Rightarrow> event" where
  "push_at repo ts cs = \<lparr>event_type = ''PushEvent'', repo_name = repo, created_at = ts, commits = cs\<rparr>"

definition six_projects :: "event list" where
  "six_projects =
     [push_at ''u/r1'' ''2024-01-01T10:00:00Z'' None,
      push_at ''u/r2'' ''2024-01-02T10:00:00Z'' None,
      push_at ''u/r3'' ''2024-01-03T10:00:00Z'' None,
      push_at ''u/r4'' ''2024-01-04T10:00:00Z'' None,
      push_at ''u/r5'' ''2024-01-05T10:00:00Z'' None,
      push_at ''u/r6'' ''2024-01-06T10:00:00Z'' None]"

definition five_seen :: alloc where
  "five_seen = \<lparr>repos_seen = {|''r1'', ''r2'', ''r3'', ''r4'', ''r5''|},
                created_branches = {|''r1'', ''r2'', ''r3'', ''r4'', ''r5''|},
                active_branches = {|''r1'', ''r2'', ''r3'', ''r4'', ''r5''|}\<rparr>"


definition no_commits :: event where
  "no_commits = push_at ''u/r1'' ''2024-01-01T10:00:00Z'' (Some [])"


definition watch_only :: "event list" where
  "watch_only = [\<lparr>event_type = ''WatchEvent'', repo_name = ''u/r1'',
                  created_at = ''2024-01-01T10:00:00Z'', commits = None\<rparr>]"

definition sets_eq :: "alloc \<Rightarrow> bool" where
  "sets_eq st \<longleftrightarrow> repos_seen st = created_branches st \<and> created_branches st = active_branches st"

definition all_recorded :: "alloc \<Rightarrow> trace \<Rightarrow> bool" where
  "all_recorded st tr \<longleftrightarrow> (\<forall>n. n |\<in>| repos_seen st \<longrightarrow> recorded_on n tr \<noteq> [])"


definition merge_fails :: adapter where
  "merge_fails tr c = (\<not> is_merge c)"


definition fails_from :: "trace \<Rightarrow> trace \<Rightarrow> bool" where
  "fails_from tr tr' \<longleftrightarrow> (\<exists>pre c. tr' = tr @ pre @ [(c, False)] \<and> \<not> is_merge c)"

definition clean :: "trace \<Rightarrow> bool" where
  "clean tr \<longleftrightarrow> (\<forall>(c, b)\<in>set tr. b \<or> is_merge c)"

definition all_dates :: "trace \<Rightarrow> string list" where
  "all_dates tr = map (snd \<circ> snd) (authored (store_of tr))"

definition dates_in :: "store \<Rightarrow> string list" where
  "dates_in s = map (snd \<circ> snd) (authored s)"

definition out_of_order :: "event list" where
  "out_of_order =
     [push_at ''u/r1'' ''2024-01-03T10:00:00Z'' (Some [\<lparr>message = ''third''\<rparr>]),
      push_at ''u/r2'' ''2024-01-02T10:00:00Z'' None,
      push_at ''u/r1'' ''2024-01-01T10:00:00Z'' (Some [\<lparr>message = ''first''\<rparr>, \<lparr>message = ''second''\<rparr>])]"

definition two_projects :: "event list" where
  "two_projects =
     [push_at ''u/alpha'' ''2024-01-02T10:00:00Z'' (Some [\<lparr>message = ''second''\<rparr>]),
      push_at ''u/zeta'' ''2024-01-01T10:00:00Z'' (Some [\<lparr>message = ''first''\<rparr>])]"

definition init_log :: trace where
  "init_log =
     [(MakeDirs, True), (GitInit, True),
      (GitConfig ''user.email'' ''bot@example.com'', True),
      (GitConfig ''user.name'' ''ActivityBot'', True),
      (GitCommit ''Init History'' ''2024-01-01T10:00:00Z'', True),
      (GitBranchM ''main'', True)]"

definition two_branches :: alloc where
  "two_branches = \<lparr>repos_seen = {|''alpha'', ''zeta''|}, created_branches = {|''alpha'', ''zeta''|},
                   active_branches = {|''alpha'', ''zeta''|}\<rparr>"

definition two_projects_log :: trace where
  "two_projects_log = init_log @
     [(GitCheckout ''main'', True), (GitCheckoutB ''zeta'', True),
      (GitCommit ''zeta: first'' ''2024-01-01T10:00:00Z'', True),
      (GitCheckout ''main'', True), (GitCheckoutB ''alpha'', True),
      (GitCommit ''alpha: second'' ''2024-01-02T10:00:00Z'', True)]"

section \<open>Properties\<close>

subsection \<open>Splitting\<close>








subsection \<open>Sequencing\<close>

lemma and_then_Inl [simp]: "and_then (Inl e, tr) f = (Inl e, tr)"
  by (simp add: and_then_def)

lemma and_then_Inr [simp]: "and_then (Inr a, tr) f = f a tr"
  by (simp add: and_then_def)

lemma and_then_eq_Inr:
  "and_then r f = (Inr b, tr') \<longleftrightarrow> (\<exists>a tr1. r = (Inr a, tr1) \<and> f a tr1 = (Inr b, tr'))"
  by (cases r; cases "fst r") (auto simp: and_then_def)

lemma run_cmd_eq_Inr:
  "run_cmd ok c tr = (Inr u, tr') \<longleftrightarrow> ok tr c \<and> tr' = tr @ [(c, True)]"
  by (auto simp: run_cmd_def)

subsection \<open>Shape of the log of a successful step\<close>

lemma replay_commits_Inr:
  "replay_commits ok sn ts cs tr = (Inr u, tr') \<Longrightarrow> tr' = tr @ commit_ops sn ts cs"
proof (induction cs arbitrary: tr)
  case Nil
  then show ?case by (simp add: commit_ops_def)
next
  case (Cons c cs)
  let ?e = "(GitCommit (sn @ '': '' @ first_line (message c)) ts, True)"
  from Cons.prems have "replay_commits ok sn ts cs (tr @ [?e]) = (Inr u, tr')"
    by (auto simp: and_then_eq_Inr run_cmd_eq_Inr)
  then have "tr' = (tr @ [?e]) @ commit_ops sn ts cs"
    by (rule Cons.IH)
  then show ?case by (simp add: commit_ops_def)
qed

lemma manage_branch_Inr:
  "manage_branch ok sn st tr = (Inr st', tr') \<Longrightarrow>
     tr' = tr @ switch_ops st sn \<and>
     st' = st\<lparr>created_branches := finsert sn (created_branches st),
              active_branches := (if sn |\<in>| created_branches st then active_branches st
                                  else finsert sn (active_branches st))\<rparr>"
  by (auto simp: manage_branch_def switch_ops_def and_then_eq_Inr run_cmd_eq_Inr finsert_absorb
           split: if_splits)

lemma process_event_dropped:
  "dropped st (short_name_of (repo_name ev)) \<Longrightarrow> process_event ok ev st tr = (Inr st, tr)"
  by (simp add: process_event_def)

lemma process_event_Inr:
  assumes "process_event ok ev st tr = (Inr st', tr')"
    and "\<not> dropped st (short_name_of (repo_name ev))"
  shows "tr' = tr @ switch_ops st (short_name_of (repo_name ev))
                 @ commit_ops (short_name_of (repo_name ev)) (created_at ev) (commits_of ev)"
    and "repos_seen st' = finsert (short_name_of (repo_name ev)) (repos_seen st)"
    and "created_branches st' = finsert (short_name_of (repo_name ev)) (created_branches st)"
    and "active_branches st' =
           (if short_name_of (repo_name ev) |\<in>| created_branches st then active_branches st
            else finsert (short_name_of (repo_name ev)) (active_branches st))"
  using assms
  by (auto simp: process_event_def Let_def and_then_eq_Inr switch_ops_def finsert_absorb
           dest!: manage_branch_Inr replay_commits_Inr split: if_splits)

subsection \<open>The store after a step\<close>

lemma replay_trace_append: "replay_trace s (a @ b) = replay_trace (replay_trace s a) b"
  by (induction a arbitrary: s) auto

lemma store_of_append: "store_of (tr @ ext) = replay_trace (store_of tr) ext"
  by (simp add: store_of_def replay_trace_append)

lemma replay_commit_ops:
  "replay_trace s (commit_ops sn ts cs) =
     s\<lparr>authored := authored s @ map (\<lambda>c. (current s, sn @ '': '' @ first_line (message c), ts)) cs\<rparr>"
  by (induction cs arbitrary: s) (simp_all add: commit_ops_def)

lemma replay_switch_ops: "replay_trace s (switch_ops st sn) = s\<lparr>current := sn\<rparr>"
  by (simp add: switch_ops_def)

lemma recorded_on_step:
  "recorded_on n (tr @ switch_ops st sn @ commit_ops sn ts cs) =
     recorded_on n tr @
       (if n = sn then map (\<lambda>c. (sn @ '': '' @ first_line (message c), ts)) cs else [])"
  by (simp add: recorded_on_def store_of_append replay_trace_append replay_commit_ops
        replay_switch_ops filter_map comp_def)

lemma current_step:
  "current (store_of (tr @ switch_ops st sn @ commit_ops sn ts cs)) = sn"
  by (simp add: store_of_append replay_trace_append replay_commit_ops replay_switch_ops)

lemma commits_of_nonempty: "commits_of ev \<noteq> []"
  by (simp add: commits_of_def Let_def)


subsection \<open>Logs of steps that may fail\<close>

lemma step_log_Nil [simp]: "step_log ts []"
  by (simp add: step_log_def)

lemma step_log_append [simp]: "step_log ts (a @ b) \<longleftrightarrow> step_log ts a \<and> step_log ts b"
  by (simp add: step_log_def)

lemma created_count_Nil [simp]: "created_count [] = 0"
  by (simp add: created_count_def)

lemma created_count_append [simp]:
  "created_count (a @ b) = created_count a + created_count b"
  by (simp add: created_count_def)

lemma created_count_commit_ops [simp]: "created_count (commit_ops sn ts cs) = 0"
  by (induction cs) (simp_all add: commit_ops_def created_count_def)

lemma created_count_switch_ops:
  "created_count (switch_ops st sn) = (if sn |\<in>| created_branches st then 0 else 1)"
  by (simp add: switch_ops_def created_count_def)

lemma run_cmd_ext: "run_cmd ok c tr = (r, tr') \<Longrightarrow> \<exists>b. tr' = tr @ [(c, b)]"
  by (auto simp: run_cmd_def split: if_splits)

lemma and_then_cases:
  assumes "and_then r f = (q, tr')"
  obtains (fail) e where "r = (Inl e, tr')" "q = Inl e"
        | (go) a tr1 where "r = (Inr a, tr1)" "f a tr1 = (q, tr')"
  using assms by (cases r; cases "fst r") (auto simp: and_then_def)

lemma replay_commits_ext:
  "replay_commits ok sn ts cs tr = (r, tr') \<Longrightarrow>
     \<exists>ext. tr' = tr @ ext \<and> step_log ts ext \<and> created_count ext = 0"
proof (induction cs arbitrary: tr)
  case Nil
  then show ?case by simp
next
  case (Cons c cs)
  let ?c = "GitCommit (sn @ '': '' @ first_line (message c)) ts"
  from Cons.prems
  have "and_then (run_cmd ok ?c tr) (\<lambda>_ tr. replay_commits ok sn ts cs tr) = (r, tr')"
    by simp
  then show ?case
  proof (cases rule: and_then_cases)
    case (fail e)
    then obtain b where "tr' = tr @ [(?c, b)]" using run_cmd_ext by blast
    then show ?thesis by (simp add: step_log_def created_count_def)
  next
    case (go a tr1)
    then obtain b where t1: "tr1 = tr @ [(?c, b)]" using run_cmd_ext by blast
    from go Cons.IH obtain ext where "tr' = tr1 @ ext" "step_log ts ext" "created_count ext = 0"
      by blast
    with t1 have "tr' = tr @ ((?c, b) # ext) \<and> step_log ts ((?c, b) # ext)
        \<and> created_count ((?c, b) # ext) = 0"
      by (simp add: step_log_def created_count_def)
    then show ?thesis by blast
  qed
qed

lemma manage_branch_ext:
  assumes "manage_branch ok sn st tr = (r, tr')"
  shows "\<exists>ext. tr' = tr @ ext \<and> step_log ts ext
           \<and> created_count ext \<le> (if sn |\<in>| created_branches st then 0 else 1)"
proof (cases "sn |\<in>| created_branches st")
  case True
  with assms have "and_then (run_cmd ok (GitCheckout sn) tr) (\<lambda>_ tr. (Inr st, tr)) = (r, tr')"
    by (simp add: manage_branch_def)
  then have "\<exists>b. tr' = tr @ [(GitCheckout sn, b)]"
    by (cases rule: and_then_cases) (auto dest: run_cmd_ext)
  then obtain b where "tr' = tr @ [(GitCheckout sn, b)]" ..
  with True show ?thesis by (simp add: step_log_def created_count_def)
next
  case False
  let ?st' = "st\<lparr>created_branches := finsert sn (created_branches st),
                   active_branches := finsert sn (active_branches st)\<rparr>"
  from False assms
  have "and_then (run_cmd ok (GitCheckout ''main'') tr) (\<lambda>_ tr.
        and_then (run_cmd ok (GitCheckoutB sn) tr) (\<lambda>_ tr. (Inr ?st', tr))) = (r, tr')"
    by (simp add: manage_branch_def)
  then show ?thesis
  proof (cases rule: and_then_cases)
    case (fail e)
    then obtain b where "tr' = tr @ [(GitCheckout ''main'', b)]" using run_cmd_ext by blast
    then show ?thesis by (simp add: step_log_def created_count_def)
  next
    case (go a tr1)
    then obtain b where t1: "tr1 = tr @ [(GitCheckout ''main'', b)]" using run_cmd_ext by blast
    from go(2) have "\<exists>b'. tr' = tr1 @ [(GitCheckoutB sn, b')]"
      by (cases rule: and_then_cases) (auto dest: run_cmd_ext)
    then obtain b' where "tr' = tr1 @ [(GitCheckoutB sn, b')]" ..
    with t1 False show ?thesis by (simp add: step_log_def created_count_def)
  qed
qed

lemma process_event_ext:
  assumes "process_event ok ev st tr = (r, tr')"
  shows "\<exists>ext. tr' = tr @ ext \<and> step_log (created_at ev) ext
           \<and> created_count ext \<le>
               (if dropped st (short_name_of (repo_name ev))
                   \<or> short_name_of (repo_name ev) |\<in>| created_branches st then 0 else 1)"
proof (cases "dropped st (short_name_of (repo_name ev))")
  case True
  with assms show ?thesis by (simp add: process_event_def)
next
  case False
  define sn where "sn = short_name_of (repo_name ev)"
  define st1 where "st1 = (if sn |\<notin>| repos_seen st
                   then st\<lparr>repos_seen := finsert sn (repos_seen st)\<rparr> else st)"
  have cb: "created_branches st1 = created_branches st" by (simp add: st1_def)
  from False assms
  have "and_then (manage_branch ok sn st1 tr) (\<lambda>st2 tr.
           and_then (replay_commits ok sn (created_at ev) (commits_of ev) tr) (\<lambda>_ tr.
             (Inr st2, tr))) = (r, tr')"
    unfolding sn_def st1_def by (simp add: process_event_def Let_def split del: if_split)
  then show ?thesis
  proof (cases rule: and_then_cases)
    case (fail e)
    from manage_branch_ext [OF fail(1), of "created_at ev"] cb False
    show ?thesis by (auto simp: sn_def)
  next
    case (go st2 tr1)
    from manage_branch_ext [OF go(1), of "created_at ev"] cb
    obtain e1 where e1: "tr1 = tr @ e1" "step_log (created_at ev) e1"
      "created_count e1 \<le> (if sn |\<in>| created_branches st then 0 else 1)"
      by auto
    from go(2) have "\<exists>q'. replay_commits ok sn (created_at ev) (commits_of ev) tr1 = (q', tr')"
      by (cases rule: and_then_cases) auto
    then obtain q' where "replay_commits ok sn (created_at ev) (commits_of ev) tr1 = (q', tr')" ..
    from replay_commits_ext [OF this]
    obtain e2 where e2: "tr' = tr1 @ e2" "step_log (created_at ev) e2" "created_count e2 = 0"
      by blast
    from e1 e2 False have "tr' = tr @ (e1 @ e2) \<and> step_log (created_at ev) (e1 @ e2)
         \<and> created_count (e1 @ e2) \<le>
               (if dropped st sn \<or> sn |\<in>| created_branches st then 0 else 1)"
      by (simp add: sn_def)
    then show ?thesis unfolding sn_def by blast
  qed
qed

subsection \<open>The cap on created timelines\<close>

lemma cap_invD:
  "cap_inv st tr \<Longrightarrow> repos_seen st = created_branches st"
  "cap_inv st tr \<Longrightarrow> created_count tr = fcard (created_branches st)"
  "cap_inv st tr \<Longrightarrow> fcard (created_branches st) \<le> MAX_REPOS"
  unfolding cap_inv_def by auto

lemma cap_invI:
  "repos_seen st = created_branches st \<Longrightarrow> created_count tr = fcard (created_branches st)
    \<Longrightarrow> fcard (created_branches st) \<le> MAX_REPOS \<Longrightarrow> cap_inv st tr"
  unfolding cap_inv_def by auto

lemma process_event_cap:
  assumes inv: "cap_inv st tr" and run: "process_event ok ev st tr = (r, tr')"
  shows "created_count tr' \<le> MAX_REPOS \<and> (\<forall>st'. r = Inr st' \<longrightarrow> cap_inv st' tr')"
proof (cases "dropped st (short_name_of (repo_name ev))")
  case True
  with run have "r = Inr st" "tr' = tr" by (simp_all add: process_event_def)
  with inv cap_invD [OF inv] show ?thesis by auto
next
  case False
  define sn where "sn = short_name_of (repo_name ev)"
  define k :: nat where "k = (if sn |\<in>| created_branches st then 0 else 1)"
  note i1 = cap_invD(1) [OF inv] and i2 = cap_invD(2) [OF inv] and i3 = cap_invD(3) [OF inv]
  from False have "sn |\<in>| repos_seen st \<or> fcard (repos_seen st) < MAX_REPOS"
    unfolding dropped_def sn_def by auto
  then have room: "sn |\<in>| created_branches st \<or> fcard (created_branches st) < MAX_REPOS"
    unfolding i1 .
  have card: "fcard (finsert sn (created_branches st)) = fcard (created_branches st) + k"
    by (simp add: k_def fcard_finsert_if)
  from room i3 have le: "fcard (created_branches st) + k \<le> MAX_REPOS"
    by (cases "sn |\<in>| created_branches st") (simp_all add: k_def)
  from process_event_ext [OF run] False
  obtain ext where ext: "tr' = tr @ ext" "created_count ext \<le> k"
    unfolding sn_def k_def by auto
  have "created_count tr' = created_count tr + created_count ext"
    unfolding ext(1) by (rule created_count_append)
  with ext(2) i2 le have bound: "created_count tr' \<le> MAX_REPOS"
    by linarith
  have "cap_inv st' tr'" if "r = Inr st'" for st'
  proof -
    from that run have ok: "process_event ok ev st tr = (Inr st', tr')" by simp
    note facts = process_event_Inr [OF ok False, folded sn_def]
    have "created_count tr' = created_count tr + k"
      unfolding facts(1) by (simp add: created_count_switch_ops k_def)
    then have c: "created_count tr' = fcard (created_branches st')"
      unfolding facts(3) card i2 .
    have s: "repos_seen st' = created_branches st'"
      unfolding facts(2,3) i1 ..
    have "fcard (created_branches st') \<le> MAX_REPOS"
      unfolding facts(3) card by (rule le)
    with s c show ?thesis by (rule cap_invI)
  qed
  with bound show ?thesis by blast
qed

lemma replay_events_cap:
  "cap_inv st tr \<Longrightarrow> replay_events ok evs st tr = (r, tr') \<Longrightarrow> created_count tr' \<le> MAX_REPOS"
proof (induction evs arbitrary: st tr)
  case Nil
  then show ?case by (auto simp: cap_inv_def)
next
  case (Cons ev evs)
  from Cons.prems(2)
  have "and_then (process_event ok ev st tr) (\<lambda>st tr. replay_events ok evs st tr) = (r, tr')"
    by simp
  then show ?case
  proof (cases rule: and_then_cases)
    case (fail e)
    with process_event_cap [OF Cons.prems(1)] show ?thesis by blast
  next
    case (go st1 tr1)
    with process_event_cap [OF Cons.prems(1)] have "cap_inv st1 tr1" by blast
    from Cons.IH [OF this go(2)] show ?thesis .
  qed
qed

lemma and_then_run_cmd:
  "and_then (run_cmd ok c tr) f =
     (if ok tr c then f () (tr @ [(c, True)]) else (Inl (AdapterError c), tr @ [(c, False)]))"
  by (simp add: run_cmd_def)

lemma and_then_unit: "and_then r (\<lambda>_ tr. (Inr (), tr)) = (r :: unit result)"
  by (cases r; cases "fst r") (auto simp: and_then_def)

lemma run_seq_Nil_fun: "run_seq ok [] = (\<lambda>tr. (Inr (), tr))"
  by (rule ext) simp

lemma run_seq_Cons_fun:
  "run_seq ok (c # cs) = (\<lambda>tr. and_then (run_cmd ok c tr) (\<lambda>_. run_seq ok cs))"
  by (rule ext) simp

lemma init_repo_run_seq: "init_repo ok dir_exists d tr = run_seq ok (init_ops dir_exists d) tr"
  by (cases dir_exists)
     (simp_all add: init_repo_def init_ops_def and_then_unit run_seq_Nil_fun run_seq_Cons_fun)

lemma run_seq_ext:
  "run_seq ok cs tr = (r, tr') \<Longrightarrow> \<exists>ext. tr' = tr @ ext \<and> fst ` set ext \<subseteq> set cs"
proof (induction cs arbitrary: tr)
  case Nil
  then show ?case by simp
next
  case (Cons c cs)
  from Cons.prems
  have "and_then (run_cmd ok c tr) (\<lambda>_ tr. run_seq ok cs tr) = (r, tr')" by simp
  then show ?case
  proof (cases rule: and_then_cases)
    case (fail e)
    then obtain b where "tr' = tr @ [(c, b)]" using run_cmd_ext by blast
    then show ?thesis by simp
  next
    case (go a tr1)
    then obtain b where t1: "tr1 = tr @ [(c, b)]" using run_cmd_ext by blast
    from Cons.IH [OF go(2)] obtain ext where "tr' = tr1 @ ext" "fst ` set ext \<subseteq> set cs"
      by blast
    with t1 have "tr' = tr @ ((c, b) # ext) \<and> fst ` set ((c, b) # ext) \<subseteq> set (c # cs)"
      by auto
    then show ?thesis by blast
  qed
qed

lemma run_seq_Inr:
  "run_seq ok cs tr = (Inr u, tr') \<Longrightarrow> tr' = tr @ map (\<lambda>c. (c, True)) cs"
proof (induction cs arbitrary: tr)
  case Nil
  then show ?case by simp
next
  case (Cons c cs)
  from Cons.prems have "run_seq ok cs (tr @ [(c, True)]) = (Inr u, tr')"
    by (auto simp: and_then_eq_Inr run_cmd_eq_Inr)
  from Cons.IH [OF this] show ?case by simp
qed

lemma init_repo_ext:
  assumes "init_repo ok dir_exists d tr = (r, tr')"
  shows "\<exists>ext. tr' = tr @ ext \<and> fst ` set ext \<subseteq> set (init_ops dir_exists d)"
  using assms run_seq_ext by (simp add: init_repo_run_seq)

lemma created_count_zero: "\<forall>c\<in>fst ` set ext. \<not> is_create c \<Longrightarrow> created_count ext = 0"
  by (induction ext) (auto simp: created_count_def)

lemma init_repo_created_count:
  assumes "init_repo ok dir_exists d [] = (r, tr')"
  shows "created_count tr' = 0"
proof -
  from init_repo_ext [OF assms] obtain ext where
    e: "tr' = ext" "fst ` set ext \<subseteq> set (init_ops dir_exists d)" by auto
  have "\<forall>c\<in>set (init_ops dir_exists d). \<not> is_create c" by (simp add: init_ops_def)
  with e(2) have "\<forall>c\<in>fst ` set ext. \<not> is_create c" by blast
  with e(1) show ?thesis by (simp add: created_count_zero)
qed

lemma reconcile_created_count:
  "reconcile ok act tr = (r, tr') \<Longrightarrow> created_count tr' = created_count tr"
  by (auto simp: reconcile_def and_then_run_cmd run_cmd_def created_count_def Let_def
           split: if_splits)

lemma cap_inv_init: "created_count tr = 0 \<Longrightarrow> cap_inv init_alloc tr"
  by (simp add: cap_inv_def init_alloc_def fcard_fempty)

lemma main_created_count: "created_count (log (main ok dir_exists fd)) \<le> MAX_REPOS"
proof (cases fd)
  case FetchFailed
  then show ?thesis by (simp add: main_def)
next
  case (Fetched events)
  show ?thesis
  proof (cases "push_events_of events")
    case Nil
    with Fetched show ?thesis by (simp add: main_def)
  next
    case (Cons first rest)
    obtain r1 tr1 where i: "init_repo ok dir_exists (created_at first) [] = (r1, tr1)"
      by (cases "init_repo ok dir_exists (created_at first) []")
    note c1 = init_repo_created_count [OF i]
    show ?thesis
    proof (cases r1)
      case (Inl e)
      with Fetched Cons i c1 show ?thesis by (simp add: main_def finish_def)
    next
      case (Inr u)
      obtain r2 tr2 where l: "replay_events ok (first # rest) init_alloc tr1 = (r2, tr2)"
        by (cases "replay_events ok (first # rest) init_alloc tr1")
      note c2 = replay_events_cap [OF cap_inv_init [OF c1] l]
      show ?thesis
      proof (cases r2)
        case (Inl e)
        with Fetched Cons i \<open>r1 = Inr u\<close> l c2 show ?thesis by (simp add: main_def finish_def)
      next
        case (Inr st)
        obtain r3 tr3 where m: "reconcile ok (active_branches st) tr2 = (r3, tr3)"
          by (cases "reconcile ok (active_branches st) tr2")
        from reconcile_created_count [OF m] c2 have "created_count tr3 \<le> MAX_REPOS" by simp
        with Fetched Cons i \<open>r1 = Inr u\<close> l Inr m show ?thesis
          by (cases r3) (simp_all add: main_def finish_def)
      qed
    qed
  qed
qed

text \<open>
  C1. Whatever the feed and whatever the history store answers, the log of a run holds
  at most \<open>MAX_REPOS\<close> create-timeline operations (failed attempts included). An event
  whose short name is not in \<open>repos_seen\<close> when \<open>repos_seen\<close> already has \<open>MAX_REPOS\<close>
  members is skipped: the step returns normally, with the same allocator state and the
  same log, so nothing is recorded, created or switched to.
\<close>

theorem timelines_capped:
  "created_count (log (main ok dir_exists fd)) \<le> MAX_REPOS \<and>
   (short_name_of (repo_name ev) |\<notin>| repos_seen st \<and> MAX_REPOS \<le> fcard (repos_seen st)
      \<longrightarrow> process_event ok ev st tr = (Inr st, tr))"
proof -
  have "process_event ok ev st tr = (Inr st, tr)"
    if "short_name_of (repo_name ev) |\<notin>| repos_seen st \<and> MAX_REPOS \<le> fcard (repos_seen st)"
    using that by (intro process_event_dropped) (simp add: dropped_def)
  with main_created_count show ?thesis by blast
qed

lemma short_r6: "short_name_of ''u/r6'' = ''r6''"
  by (simp add: short_name_of_def str_split_def)

lemma fcard5: "fcard (repos_seen five_seen) = 5"
  by (simp add: five_seen_def fcard_finsert_if fcard_fempty)

theorem timelines_capped_witness:
  "created_count (log (main all_ok False (Fetched six_projects))) \<le> MAX_REPOS \<and>
   short_name_of (repo_name (push_at ''u/r6'' ''2024-01-06T10:00:00Z'' None)) |\<notin>| repos_seen five_seen \<and>
   MAX_REPOS \<le> fcard (repos_seen five_seen) \<and>
   process_event all_ok (push_at ''u/r6'' ''2024-01-06T10:00:00Z'' None) five_seen [] = (Inr five_seen, [])"
proof -
  have h: "short_name_of (repo_name (push_at ''u/r6'' ''2024-01-06T10:00:00Z'' None)) |\<notin>| repos_seen five_seen
      \<and> MAX_REPOS \<le> fcard (repos_seen five_seen)"
    by (simp add: push_at_def short_r6 fcard5 MAX_REPOS_def) (simp add: five_seen_def)
  with timelines_capped [of all_ok False "Fetched six_projects"
      "push_at ''u/r6'' ''2024-01-06T10:00:00Z'' None" five_seen "[]"]
  show ?thesis by blast
qed









subsection \<open>The feed: empty history, ordering\<close>

text \<open>
  C5. A feed that was fetched but holds no push event ends the run with
  \<open>EmptyHistoryError\<close> and exit status 1, and the log is empty: neither the output
  directory nor the repository was touched.
\<close>

theorem empty_history_fails:
  assumes "filter (\<lambda>e. event_type e = ''PushEvent'') events = []"
  shows "main ok dir_exists (Fetched events) = \<lparr>outcome = Some EmptyHistoryError, log = []\<rparr>
         \<and> exit_code (main ok dir_exists (Fetched events)) = 1"
  using assms by (simp add: main_def push_events_of_def exit_code_def)

theorem empty_history_fails_witness:
  "filter (\<lambda>e. event_type e = ''PushEvent'') watch_only = []
   \<and> main all_ok True (Fetched watch_only) = \<lparr>outcome = Some EmptyHistoryError, log = []\<rparr>
   \<and> exit_code (main all_ok True (Fetched watch_only)) = 1"
proof -
  have h: "filter (\<lambda>e. event_type e = ''PushEvent'') watch_only = []"
    by (simp add: watch_only_def)
  from empty_history_fails [OF h, of all_ok True] h show ?thesis by blast
qed

subsection \<open>The final merge\<close>

lemma sorted_list_of_fset_sorted: "sorted (sorted_list_of_fset S) \<and> distinct (sorted_list_of_fset S)"
  by (simp add: sorted_list_of_fset.rep_eq)

lemma reconcile_unfold:
  "reconcile ok active tr =
     (if \<not> ok tr (GitCheckout ''main'')
      then (Inl (AdapterError (GitCheckout ''main'')), tr @ [(GitCheckout ''main'', False)])
      else if active = {||} then (Inr (), tr @ [(GitCheckout ''main'', True)])
      else (Inr (), tr @ [(GitCheckout ''main'', True),
              (GitMerge (sorted_list_of_fset active),
               ok (tr @ [(GitCheckout ''main'', True)]) (GitMerge (sorted_list_of_fset active)))]))"
  by (simp add: reconcile_def and_then_run_cmd run_cmd_def Let_def)

subsection \<open>The three sets of the allocator\<close>

lemma process_event_sets_eq:
  assumes "process_event ok ev st tr = (Inr st', tr')" and "sets_eq st"
  shows "sets_eq st'"
proof (cases "dropped st (short_name_of (repo_name ev))")
  case True
  with assms show ?thesis by (simp add: process_event_def)
next
  case False
  note facts = process_event_Inr [OF assms(1) False]
  from assms(2) have "repos_seen st = created_branches st" "created_branches st = active_branches st"
    unfolding sets_eq_def by auto
  then show ?thesis
    unfolding sets_eq_def facts(2,3,4) by (auto simp: finsert_absorb)
qed

lemma process_event_all_recorded:
  assumes "process_event ok ev st tr = (Inr st', tr')" and "all_recorded st tr"
  shows "all_recorded st' tr'"
proof (cases "dropped st (short_name_of (repo_name ev))")
  case True
  with assms show ?thesis by (simp add: process_event_def)
next
  case False
  note facts = process_event_Inr [OF assms(1) False]
  show ?thesis
    unfolding all_recorded_def facts(1,2) recorded_on_step
    using assms(2) commits_of_nonempty [of ev] by (auto simp: all_recorded_def)
qed

lemma process_event_active_mono:
  assumes "process_event ok ev st tr = (Inr st', tr')"
  shows "active_branches st |\<subseteq>| active_branches st'"
proof (cases "dropped st (short_name_of (repo_name ev))")
  case True
  with assms show ?thesis by (simp add: process_event_def)
next
  case False
  show ?thesis unfolding process_event_Inr(4) [OF assms False] by auto
qed

lemma replay_events_Cons_Inr:
  "replay_events ok (ev # evs) st tr = (Inr st', tr') \<longleftrightarrow>
     (\<exists>st1 tr1. process_event ok ev st tr = (Inr st1, tr1)
        \<and> replay_events ok evs st1 tr1 = (Inr st', tr'))"
  by (simp add: and_then_eq_Inr)

lemma replay_events_invs:
  "replay_events ok evs st tr = (Inr st', tr') \<Longrightarrow> sets_eq st \<Longrightarrow> all_recorded st tr \<Longrightarrow>
     sets_eq st' \<and> all_recorded st' tr' \<and> active_branches st |\<subseteq>| active_branches st'"
proof (induction evs arbitrary: st tr)
  case Nil
  then show ?case by simp
next
  case (Cons ev evs)
  from Cons.prems(1) obtain st1 tr1 where
    s: "process_event ok ev st tr = (Inr st1, tr1)" and
    r: "replay_events ok evs st1 tr1 = (Inr st', tr')"
    unfolding replay_events_Cons_Inr by blast
  from Cons.IH [OF r process_event_sets_eq [OF s Cons.prems(2)]
      process_event_all_recorded [OF s Cons.prems(3)]]
    process_event_active_mono [OF s]
  show ?case by auto
qed

lemma init_alloc_invs: "sets_eq init_alloc" "all_recorded init_alloc tr"
  by (simp_all add: sets_eq_def all_recorded_def init_alloc_def)

lemma first_event_active:
  assumes "process_event ok ev init_alloc tr = (Inr st', tr')"
  shows "active_branches st' \<noteq> {||}"
proof -
  have k: "\<not> dropped init_alloc (short_name_of (repo_name ev))"
    by (simp add: dropped_def init_alloc_def MAX_REPOS_def fcard_fempty)
  show ?thesis unfolding process_event_Inr(4) [OF assms k] by (simp add: init_alloc_def)
qed



subsection \<open>One timeline per final path segment\<close>







subsection \<open>The exit status\<close>

text \<open>
  C6, as stated, fails: when only the merge fails, the run still ends with status 0.
\<close>

theorem exit_contract_counterexample:
  "main merge_fails False (Fetched [no_commits]) =
       \<lparr>outcome = None,
        log = [(MakeDirs, True), (GitInit, True),
               (GitConfig ''user.email'' ''bot@example.com'', True),
               (GitConfig ''user.name'' ''ActivityBot'', True),
               (GitCommit ''Init History'' ''2024-01-01T10:00:00Z'', True),
               (GitBranchM ''main'', True),
               (GitCheckout ''main'', True), (GitCheckoutB ''r1'', True),
               (GitCommit ''r1: Update'' ''2024-01-01T10:00:00Z'', True),
               (GitCheckout ''main'', True), (GitMerge [''r1''], False)]\<rparr>
   \<and> exit_code (main merge_fails False (Fetched [no_commits])) = 0"
  by code_simp

lemma fails_from_trans: "fails_from (tr @ ext) tr' \<Longrightarrow> fails_from tr tr'"
  unfolding fails_from_def by (metis append.assoc)

lemma fails_from_not_clean: "fails_from tr tr' \<Longrightarrow> \<not> clean tr'"
  unfolding fails_from_def clean_def by auto

lemma clean_append [simp]: "clean (a @ b) \<longleftrightarrow> clean a \<and> clean b"
  unfolding clean_def by auto

lemma clean_Nil [simp]: "clean []"
  by (simp add: clean_def)

lemma clean_all_True: "clean (map (\<lambda>c. (c, True)) cs)"
  by (induction cs) (simp_all add: clean_def)

lemma clean_commit_ops [simp]: "clean (commit_ops sn ts cs)"
  unfolding commit_ops_def clean_def by auto

lemma clean_switch_ops [simp]: "clean (switch_ops st sn)"
  by (simp add: switch_ops_def clean_def)

lemma run_cmd_fails:
  "run_cmd ok c tr = (Inl e, tr') \<Longrightarrow> \<not> is_merge c \<Longrightarrow> fails_from tr tr'"
  unfolding fails_from_def by (auto simp: run_cmd_def split: if_splits)

lemma run_seq_fails:
  "run_seq ok cs tr = (Inl e, tr') \<Longrightarrow> \<forall>c\<in>set cs. \<not> is_merge c \<Longrightarrow> fails_from tr tr'"
proof (induction cs arbitrary: tr)
  case Nil
  then show ?case by simp
next
  case (Cons c cs)
  from Cons.prems(1)
  have "and_then (run_cmd ok c tr) (\<lambda>_ tr. run_seq ok cs tr) = (Inl e, tr')" by simp
  then show ?case
  proof (cases rule: and_then_cases)
    case (fail e')
    with Cons.prems(2) show ?thesis by (auto intro: run_cmd_fails)
  next
    case (go a tr1)
    then obtain b where t1: "tr1 = tr @ [(c, b)]" using run_cmd_ext by blast
    from Cons.IH [OF go(2)] Cons.prems(2) have "fails_from tr1 tr'" by simp
    then show ?thesis unfolding t1 by (rule fails_from_trans)
  qed
qed

lemma replay_commits_fails:
  "replay_commits ok sn ts cs tr = (Inl e, tr') \<Longrightarrow> fails_from tr tr'"
proof (induction cs arbitrary: tr)
  case Nil
  then show ?case by simp
next
  case (Cons c cs)
  let ?c = "GitCommit (sn @ '': '' @ first_line (message c)) ts"
  from Cons.prems
  have "and_then (run_cmd ok ?c tr) (\<lambda>_ tr. replay_commits ok sn ts cs tr) = (Inl e, tr')"
    by simp
  then show ?case
  proof (cases rule: and_then_cases)
    case (fail e')
    then show ?thesis by (auto intro: run_cmd_fails)
  next
    case (go a tr1)
    then obtain b where t1: "tr1 = tr @ [(?c, b)]" using run_cmd_ext by blast
    from Cons.IH [OF go(2)] show ?thesis unfolding t1 by (rule fails_from_trans)
  qed
qed

lemma manage_branch_fails:
  assumes "manage_branch ok sn st tr = (Inl e, tr')"
  shows "fails_from tr tr'"
proof (cases "sn |\<in>| created_branches st")
  case True
  with assms have "and_then (run_cmd ok (GitCheckout sn) tr) (\<lambda>_ tr. (Inr st, tr)) = (Inl e, tr')"
    by (simp add: manage_branch_def)
  then show ?thesis
    by (cases rule: and_then_cases) (auto intro: run_cmd_fails)
next
  case False
  let ?st' = "st\<lparr>created_branches := finsert sn (created_branches st),
                   active_branches := finsert sn (active_branches st)\<rparr>"
  from False assms
  have "and_then (run_cmd ok (GitCheckout ''main'') tr) (\<lambda>_ tr.
        and_then (run_cmd ok (GitCheckoutB sn) tr) (\<lambda>_ tr. (Inr ?st', tr))) = (Inl e, tr')"
    by (simp add: manage_branch_def)
  then show ?thesis
  proof (cases rule: and_then_cases)
    case (fail e')
    then show ?thesis by (auto intro: run_cmd_fails)
  next
    case (go a tr1)
    then obtain b where t1: "tr1 = tr @ [(GitCheckout ''main'', b)]" using run_cmd_ext by blast
    from go(2) have "fails_from tr1 tr'"
      by (cases rule: and_then_cases) (auto intro: run_cmd_fails)
    then show ?thesis unfolding t1 by (rule fails_from_trans)
  qed
qed

lemma process_event_fails:
  assumes "process_event ok ev st tr = (Inl e, tr')"
  shows "fails_from tr tr'"
proof (cases "dropped st (short_name_of (repo_name ev))")
  case True
  with assms show ?thesis by (simp add: process_event_def)
next
  case False
  define sn where "sn = short_name_of (repo_name ev)"
  define st1 where "st1 = (if sn |\<notin>| repos_seen st
                   then st\<lparr>repos_seen := finsert sn (repos_seen st)\<rparr> else st)"
  from False assms
  have "and_then (manage_branch ok sn st1 tr) (\<lambda>st2 tr.
           and_then (replay_commits ok sn (created_at ev) (commits_of ev) tr) (\<lambda>_ tr.
             (Inr st2, tr))) = (Inl e, tr')"
    unfolding sn_def st1_def by (simp add: process_event_def Let_def split del: if_split)
  then show ?thesis
  proof (cases rule: and_then_cases)
    case (fail e')
    then show ?thesis by (auto intro: manage_branch_fails)
  next
    case (go st2 tr1)
    from manage_branch_ext [OF go(1), of "created_at ev"]
    obtain e1 where e1: "tr1 = tr @ e1" by auto
    from go(2) have "fails_from tr1 tr'"
      by (cases rule: and_then_cases) (auto intro: replay_commits_fails)
    then show ?thesis unfolding e1 by (rule fails_from_trans)
  qed
qed

lemma replay_events_fails:
  "replay_events ok evs st tr = (Inl e, tr') \<Longrightarrow> fails_from tr tr'"
proof (induction evs arbitrary: st tr)
  case Nil
  then show ?case by simp
next
  case (Cons ev evs)
  from Cons.prems
  have "and_then (process_event ok ev st tr) (\<lambda>st tr. replay_events ok evs st tr) = (Inl e, tr')"
    by simp
  then show ?case
  proof (cases rule: and_then_cases)
    case (fail e')
    then show ?thesis by (auto intro: process_event_fails)
  next
    case (go st1 tr1)
    from process_event_ext [OF go(1)] obtain e1 where e1: "tr1 = tr @ e1" by auto
    from Cons.IH [OF go(2)] show ?thesis unfolding e1 by (rule fails_from_trans)
  qed
qed

lemma process_event_clean:
  assumes "process_event ok ev st tr = (Inr st', tr')" and "clean tr"
  shows "clean tr'"
proof (cases "dropped st (short_name_of (repo_name ev))")
  case True
  with assms show ?thesis by (simp add: process_event_def)
next
  case False
  show ?thesis unfolding process_event_Inr(1) [OF assms(1) False] using assms(2) by simp
qed

lemma replay_events_clean:
  "replay_events ok evs st tr = (Inr st', tr') \<Longrightarrow> clean tr \<Longrightarrow> clean tr'"
proof (induction evs arbitrary: st tr)
  case Nil
  then show ?case by simp
next
  case (Cons ev evs)
  from Cons.prems(1) obtain st1 tr1 where
    s: "process_event ok ev st tr = (Inr st1, tr1)" and
    r: "replay_events ok evs st1 tr1 = (Inr st', tr')"
    unfolding replay_events_Cons_Inr by blast
  from Cons.IH [OF r process_event_clean [OF s Cons.prems(2)]] show ?case .
qed

lemma init_ops_no_merge: "\<forall>c\<in>set (init_ops dir_exists d). \<not> is_merge c"
  by (simp add: init_ops_def)

lemma init_repo_fails: "init_repo ok dir_exists d tr = (Inl e, tr') \<Longrightarrow> fails_from tr tr'"
  unfolding init_repo_run_seq by (erule run_seq_fails) (rule init_ops_no_merge)

lemma init_repo_clean: "init_repo ok dir_exists d tr = (Inr u, tr') \<Longrightarrow> clean tr \<Longrightarrow> clean tr'"
  unfolding init_repo_run_seq by (auto dest!: run_seq_Inr simp: clean_all_True)

lemma reconcile_fails: "reconcile ok act tr = (Inl e, tr') \<Longrightarrow> fails_from tr tr'"
  unfolding reconcile_unfold fails_from_def by (auto split: if_splits)

lemma reconcile_clean: "reconcile ok act tr = (Inr u, tr') \<Longrightarrow> clean tr \<Longrightarrow> clean tr'"
  unfolding reconcile_unfold by (auto split: if_splits simp: clean_def)

lemma main_stages:
  assumes "push_events_of events = first # rest"
  shows "init_repo ok d (created_at first) [] = (Inl e, tr1) \<Longrightarrow>
           main ok d (Fetched events) = \<lparr>outcome = Some e, log = tr1\<rparr>"
    and "init_repo ok d (created_at first) [] = (Inr u, tr1) \<Longrightarrow>
         replay_events ok (first # rest) init_alloc tr1 = (Inl e, tr2) \<Longrightarrow>
           main ok d (Fetched events) = \<lparr>outcome = Some e, log = tr2\<rparr>"
    and "init_repo ok d (created_at first) [] = (Inr u, tr1) \<Longrightarrow>
         replay_events ok (first # rest) init_alloc tr1 = (Inr st, tr2) \<Longrightarrow>
         reconcile ok (active_branches st) tr2 = (Inl e, tr3) \<Longrightarrow>
           main ok d (Fetched events) = \<lparr>outcome = Some e, log = tr3\<rparr>"
    and "init_repo ok d (created_at first) [] = (Inr u, tr1) \<Longrightarrow>
         replay_events ok (first # rest) init_alloc tr1 = (Inr st, tr2) \<Longrightarrow>
         reconcile ok (active_branches st) tr2 = (Inr v, tr3) \<Longrightarrow>
           main ok d (Fetched events) = \<lparr>outcome = None, log = tr3\<rparr>"
  using assms by (simp_all add: main_def finish_def del: replay_events.simps)

lemma exit_code_simps [simp]:
  "exit_code \<lparr>outcome = Some e, log = tr\<rparr> = 1"
  "exit_code \<lparr>outcome = None, log = tr\<rparr> = 0"
  by (simp_all add: exit_code_def)

lemma push_events_of_Nil:
  "push_events_of events = [] \<longleftrightarrow> filter (\<lambda>e. event_type e = ''PushEvent'') events = []"
proof -
  have "length (push_events_of events) = length (filter (\<lambda>e. event_type e = ''PushEvent'') events)"
    by (simp add: push_events_of_def)
  then show ?thesis by (metis length_0_conv)
qed

lemma main_exit_zero_iff:
  "exit_code (main ok dir_exists fd) = 0 \<longleftrightarrow>
     (\<exists>events. fd = Fetched events \<and> filter (\<lambda>e. event_type e = ''PushEvent'') events \<noteq> []
        \<and> clean (log (main ok dir_exists fd)))"
proof (cases fd)
  case FetchFailed
  then show ?thesis by (simp add: main_def)
next
  case (Fetched events)
  show ?thesis
  proof (cases "push_events_of events")
    case Nil
    then have "main ok dir_exists fd = \<lparr>outcome = Some EmptyHistoryError, log = []\<rparr>"
      unfolding Fetched by (simp add: main_def)
    moreover from Nil have "filter (\<lambda>e. event_type e = ''PushEvent'') events = []"
      by (simp add: push_events_of_Nil)
    ultimately show ?thesis unfolding Fetched by simp
  next
    case (Cons first rest)
    then have ne: "filter (\<lambda>e. event_type e = ''PushEvent'') events \<noteq> []"
      using push_events_of_Nil [of events] by simp
    note stages = main_stages [OF Cons, of ok dir_exists]
    have goal: ?thesis
      if "main ok dir_exists (Fetched events) = \<lparr>outcome = oc, log = tr\<rparr>"
        and "oc = None \<longleftrightarrow> clean tr" for oc tr
      unfolding Fetched using that ne by (cases oc) simp_all
    obtain r1 tr1 where i: "init_repo ok dir_exists (created_at first) [] = (r1, tr1)"
      by (cases "init_repo ok dir_exists (created_at first) []")
    show ?thesis
    proof (cases r1)
      case (Inl e)
      note i = i [unfolded Inl]
      from init_repo_fails [OF i] have nc: "\<not> clean tr1" by (rule fails_from_not_clean)
      from stages(1) [OF i] show ?thesis by (rule goal) (simp add: nc)
    next
      case (Inr u)
      note i = i [unfolded Inr]
      from init_repo_clean [OF i] have c1: "clean tr1" by simp
      obtain r2 tr2 where l: "replay_events ok (first # rest) init_alloc tr1 = (r2, tr2)"
        by (cases "replay_events ok (first # rest) init_alloc tr1")
      show ?thesis
      proof (cases r2)
        case (Inl e)
        note l = l [unfolded Inl]
        from replay_events_fails [OF l] have nc: "\<not> clean tr2" by (rule fails_from_not_clean)
        from stages(2) [OF i l] show ?thesis by (rule goal) (simp add: nc)
      next
        case (Inr st)
        note l = l [unfolded Inr]
        from replay_events_clean [OF l c1] have c2: "clean tr2" .
        obtain r3 tr3 where m: "reconcile ok (active_branches st) tr2 = (r3, tr3)"
          by (cases "reconcile ok (active_branches st) tr2")
        show ?thesis
        proof (cases r3)
          case (Inl e)
          note m = m [unfolded Inl]
          from reconcile_fails [OF m] have nc: "\<not> clean tr3" by (rule fails_from_not_clean)
          from stages(3) [OF i l m] show ?thesis by (rule goal) (simp add: nc)
        next
          case (Inr v)
          note m = m [unfolded Inr]
          from reconcile_clean [OF m c2] have c3: "clean tr3" .
          from stages(4) [OF i l m] show ?thesis by (rule goal) (simp add: c3)
        qed
      qed
    qed
  qed
qed

text \<open>
  C6, amended. The run ends with status 0 exactly when the feed was fetched, holds at
  least one push event, and every operation issued succeeded, the final merge apart: a
  merge that fails is caught and leaves the status at 0. In every other case (fetch
  failure, no push event, or a failing operation other than the merge) the status is 1.
\<close>

theorem exit_status_contract:
  "(exit_code (main ok dir_exists fd) = 0 \<longleftrightarrow>
     (\<exists>events. fd = Fetched events \<and> filter (\<lambda>e. event_type e = ''PushEvent'') events \<noteq> []
        \<and> (\<forall>(c, b)\<in>set (log (main ok dir_exists fd)). b \<or> is_merge c)))
   \<and> (exit_code (main ok dir_exists fd) \<noteq> 0 \<longrightarrow> exit_code (main ok dir_exists fd) = 1)"
proof -
  have "exit_code r \<noteq> 0 \<longrightarrow> exit_code r = 1" for r
    by (simp add: exit_code_def split: option.splits)
  with main_exit_zero_iff [of ok dir_exists fd] show ?thesis
    unfolding clean_def by blast
qed

theorem exit_status_contract_witness:
  "log (main all_ok False (Fetched [no_commits])) =
     [(MakeDirs, True), (GitInit, True),
      (GitConfig ''user.email'' ''bot@example.com'', True),
      (GitConfig ''user.name'' ''ActivityBot'', True),
      (GitCommit ''Init History'' ''2024-01-01T10:00:00Z'', True),
      (GitBranchM ''main'', True),
      (GitCheckout ''main'', True), (GitCheckoutB ''r1'', True),
      (GitCommit ''r1: Update'' ''2024-01-01T10:00:00Z'', True),
      (GitCheckout ''main'', True), (GitMerge [''r1''], True)]
   \<and> exit_code (main all_ok False (Fetched [no_commits])) = 0"
proof -
  have l: "log (main all_ok False (Fetched [no_commits])) =
     [(MakeDirs, True), (GitInit, True),
      (GitConfig ''user.email'' ''bot@example.com'', True),
      (GitConfig ''user.name'' ''ActivityBot'', True),
      (GitCommit ''Init History'' ''2024-01-01T10:00:00Z'', True),
      (GitBranchM ''main'', True),
      (GitCheckout ''main'', True), (GitCheckoutB ''r1'', True),
      (GitCommit ''r1: Update'' ''2024-01-01T10:00:00Z'', True),
      (GitCheckout ''main'', True), (GitMerge [''r1''], True)]"
    by code_simp
  have h: "\<forall>(c, b)\<in>set (log (main all_ok False (Fetched [no_commits]))). b \<or> is_merge c"
    unfolding l by simp
  have p: "filter (\<lambda>e. event_type e = ''PushEvent'') [no_commits] \<noteq> []"
    by (simp add: no_commits_def push_at_def)
  from exit_status_contract [of all_ok False "Fetched [no_commits]"] h p
  have "exit_code (main all_ok False (Fetched [no_commits])) = 0" by blast
  with l show ?thesis by blast
qed

subsection \<open>Timestamps along a timeline\<close>

lemma all_dates_store: "all_dates tr = dates_in (store_of tr)"
  by (simp add: all_dates_def dates_in_def)

lemma dates_in_apply_step:
  "step_op ts c \<Longrightarrow> \<exists>k. dates_in (apply_op c s) = dates_in s @ replicate k ts"
proof (cases c)
  case (GitCommit m d)
  assume "step_op ts c"
  with GitCommit have "dates_in (apply_op c s) = dates_in s @ replicate 1 ts"
    by (simp add: dates_in_def)
  then show ?thesis by blast
qed (auto simp: dates_in_def)

lemma dates_in_step_log:
  "step_log ts ext \<Longrightarrow> \<exists>k. dates_in (replay_trace s ext) = dates_in s @ replicate k ts"
proof (induction ext arbitrary: s)
  case Nil
  then show ?case by simp
next
  case (Cons x ext)
  obtain c b where x: "x = (c, b)" by (cases x)
  from Cons.prems x have c: "step_op ts c" and rest: "step_log ts ext"
    by (simp_all add: step_log_def)
  define s1 where "s1 = (if b then apply_op c s else s)"
  from dates_in_apply_step [OF c, of s] obtain k1 where
    k1: "dates_in s1 = dates_in s @ replicate k1 ts"
    by (cases b) (auto simp: s1_def)
  from Cons.IH [OF rest, of s1] obtain k2 where
    k2: "dates_in (replay_trace s1 ext) = dates_in s1 @ replicate k2 ts" by blast
  have "dates_in (replay_trace s (x # ext)) = dates_in s @ replicate (k1 + k2) ts"
    unfolding x by (simp add: s1_def [symmetric] k2 k1 replicate_add)
  then show ?case by blast
qed

lemma dates_in_branch_M: "dates_in (apply_op (GitBranchM n) s) = dates_in s"
  by (auto simp: dates_in_def)

lemma dates_in_apply_init:
  assumes "c \<in> set (init_ops de d)"
  shows "set (dates_in (apply_op c s)) \<subseteq> set (dates_in s) \<union> {d}"
proof (cases c)
  case (GitBranchM n)
  then show ?thesis unfolding GitBranchM dates_in_branch_M by auto
next
  case (GitCommit m d')
  with assms have "d' = d" by (auto simp: init_ops_def split: if_splits)
  with GitCommit show ?thesis by (auto simp: dates_in_def)
qed (auto simp: dates_in_def init_store_def)

lemma dates_in_init_log:
  "fst ` set ext \<subseteq> set (init_ops de d) \<Longrightarrow>
     set (dates_in (replay_trace s ext)) \<subseteq> set (dates_in s) \<union> {d}"
proof (induction ext arbitrary: s)
  case Nil
  then show ?case by auto
next
  case (Cons x ext)
  obtain c b where x: "x = (c, b)" by (cases x)
  from Cons.prems x have c: "c \<in> set (init_ops de d)"
    and rest: "fst ` set ext \<subseteq> set (init_ops de d)" by auto
  define s1 where "s1 = (if b then apply_op c s else s)"
  from dates_in_apply_init [OF c, of s] have 1: "set (dates_in s1) \<subseteq> set (dates_in s) \<union> {d}"
    by (cases b) (auto simp: s1_def)
  from Cons.IH [OF rest, of s1] have "set (dates_in (replay_trace s1 ext)) \<subseteq> set (dates_in s1) \<union> {d}" .
  with 1 show ?case unfolding x by (auto simp: s1_def [symmetric])
qed

lemma sorted_constant: "set xs \<subseteq> {d} \<Longrightarrow> sorted (xs :: string list)"
  by (induction xs) auto

lemma init_repo_dates:
  assumes "init_repo ok de d [] = (r, tr')"
  shows "set (all_dates tr') \<subseteq> {d}"
proof -
  from init_repo_ext [OF assms] obtain ext where
    e: "tr' = ext" "fst ` set ext \<subseteq> set (init_ops de d)" by auto
  from dates_in_init_log [OF e(2), of init_store] show ?thesis
    unfolding e(1) all_dates_store store_of_def by (simp add: dates_in_def init_store_def)
qed

lemma process_event_dates:
  assumes "process_event ok ev st tr = (r, tr')"
  shows "\<exists>k. all_dates tr' = all_dates tr @ replicate k (created_at ev)"
proof -
  from process_event_ext [OF assms] obtain ext where
    e: "tr' = tr @ ext" "step_log (created_at ev) ext" by auto
  from dates_in_step_log [OF e(2)] show ?thesis
    unfolding e(1) all_dates_store store_of_append .
qed

lemma replay_events_dates:
  "replay_events ok evs st tr = (r, tr') \<Longrightarrow> sorted (map created_at evs) \<Longrightarrow>
   sorted (all_dates tr) \<Longrightarrow> \<forall>x\<in>set (all_dates tr). \<forall>e\<in>set evs. x \<le> created_at e \<Longrightarrow>
     sorted (all_dates tr')"
proof (induction evs arbitrary: st tr)
  case Nil
  then show ?case by simp
next
  case (Cons ev evs)
  obtain q tr1 where p: "process_event ok ev st tr = (q, tr1)"
    by (cases "process_event ok ev st tr")
  from process_event_dates [OF p] obtain k where
    k: "all_dates tr1 = all_dates tr @ replicate k (created_at ev)" by blast
  from Cons.prems(3,4) have s1: "sorted (all_dates tr1)"
    unfolding k by (auto simp: sorted_append)
  show ?case
  proof (cases q)
    case (Inl e)
    with Cons.prems(1) p have "tr' = tr1" by simp
    with s1 show ?thesis by simp
  next
    case (Inr st1)
    with Cons.prems(1) p have r: "replay_events ok evs st1 tr1 = (r, tr')" by simp
    from Cons.prems(2) have se: "sorted (map created_at evs)"
      and le: "\<forall>e\<in>set evs. created_at ev \<le> created_at e" by auto
    from Cons.prems(4) le have "\<forall>x\<in>set (all_dates tr1). \<forall>e\<in>set evs. x \<le> created_at e"
      unfolding k by auto
    from Cons.IH [OF r se s1 this] show ?thesis .
  qed
qed

lemma reconcile_dates:
  "reconcile ok act tr = (r, tr') \<Longrightarrow> all_dates tr' = all_dates tr"
  unfolding reconcile_unfold all_dates_def
  by (auto split: if_splits simp: store_of_append)

lemma sorted_recorded_on: "sorted (all_dates tr) \<Longrightarrow> sorted (map snd (recorded_on n tr))"
proof -
  assume "sorted (all_dates tr)"
  then have "sorted (map (snd \<circ> snd) (filter (\<lambda>(t, c). t = n) (authored (store_of tr))))"
    unfolding all_dates_def by (rule sorted_filter)
  then show ?thesis by (simp add: recorded_on_def)
qed

lemma main_dates_sorted: "sorted (all_dates (log (main ok dir_exists fd)))"
proof (cases fd)
  case FetchFailed
  then show ?thesis by (simp add: main_def all_dates_def store_of_def init_store_def)
next
  case (Fetched events)
  show ?thesis
  proof (cases "push_events_of events")
    case Nil
    with Fetched show ?thesis by (simp add: main_def all_dates_def store_of_def init_store_def)
  next
    case (Cons first rest)
    note stages = main_stages [OF Cons, of ok dir_exists]
    have so: "sorted (map created_at (first # rest))"
      unfolding Cons [symmetric] push_events_of_def by simp
    obtain r1 tr1 where i: "init_repo ok dir_exists (created_at first) [] = (r1, tr1)"
      by (cases "init_repo ok dir_exists (created_at first) []")
    note d1 = init_repo_dates [OF i]
    then have s1: "sorted (all_dates tr1)" by (rule sorted_constant)
    from d1 so have b1: "\<forall>x\<in>set (all_dates tr1). \<forall>e\<in>set (first # rest). x \<le> created_at e"
      by auto
    show ?thesis
    proof (cases r1)
      case (Inl e)
      from stages(1) [OF i [unfolded Inl]] s1 show ?thesis unfolding Fetched by simp
    next
      case (Inr u)
      note i = i [unfolded Inr]
      obtain r2 tr2 where l: "replay_events ok (first # rest) init_alloc tr1 = (r2, tr2)"
        by (cases "replay_events ok (first # rest) init_alloc tr1")
      from replay_events_dates [OF l so s1 b1] have s2: "sorted (all_dates tr2)" .
      show ?thesis
      proof (cases r2)
        case (Inl e)
        from stages(2) [OF i l [unfolded Inl]] s2 show ?thesis unfolding Fetched by simp
      next
        case (Inr st)
        note l = l [unfolded Inr]
        obtain r3 tr3 where m: "reconcile ok (active_branches st) tr2 = (r3, tr3)"
          by (cases "reconcile ok (active_branches st) tr2")
        from reconcile_dates [OF m] s2 have s3: "sorted (all_dates tr3)" by simp
        show ?thesis
        proof (cases r3)
          case (Inl e)
          from stages(3) [OF i l m [unfolded Inl]] s3 show ?thesis unfolding Fetched by simp
        next
          case (Inr v)
          from stages(4) [OF i l m [unfolded Inr]] s3 show ?thesis unfolding Fetched by simp
        qed
      qed
    qed
  qed
qed

text \<open>
  C3. In the log of any run, whatever the feed and the history store's answers, the
  \<open>authoredAt\<close> values of the changes recorded on a timeline are in non-decreasing
  order, for every timeline name (the root \<open>main\<close> included).
\<close>

theorem authored_dates_nondecreasing:
  "sorted (map snd (recorded_on n (log (main ok dir_exists fd))))"
  using main_dates_sorted by (rule sorted_recorded_on)


theorem authored_dates_nondecreasing_witness:
  "sorted (map snd (recorded_on ''r1'' (log (main all_ok False (Fetched out_of_order)))))
   \<and> recorded_on ''r1'' (log (main all_ok False (Fetched out_of_order))) =
       [(''r1: first'', ''2024-01-01T10:00:00Z''), (''r1: second'', ''2024-01-01T10:00:00Z''),
        (''r1: third'', ''2024-01-03T10:00:00Z'')]"
proof -
  have "recorded_on ''r1'' (log (main all_ok False (Fetched out_of_order))) =
       [(''r1: first'', ''2024-01-01T10:00:00Z''), (''r1: second'', ''2024-01-01T10:00:00Z''),
        (''r1: third'', ''2024-01-03T10:00:00Z'')]"
    by code_simp
  with authored_dates_nondecreasing [of "''r1''" all_ok False "Fetched out_of_order"]
  show ?thesis by blast
qed

subsection \<open>The run replays the sorted push events\<close>

lemma push_events_of_idem: "push_events_of (push_events_of events) = push_events_of events"
proof -
  let ?P = "\<lambda>e. event_type e = ''PushEvent''"
  have "filter ?P (push_events_of events) = push_events_of events"
    by (simp add: push_events_of_def filter_sort)
  moreover have "sort_key created_at (push_events_of events) = push_events_of events"
    by (rule sort_key_id_if_sorted) (simp add: push_events_of_def)
  ultimately show ?thesis by (simp add: push_events_of_def)
qed

lemma main_sorted_feed:
  "main ok d (Fetched events) = main ok d (Fetched (push_events_of events))"
  by (simp add: main_def push_events_of_idem del: replay_events.simps)

lemma reconcile_extends: "reconcile ok act tr = (r, tr') \<Longrightarrow> \<exists>ext. tr' = tr @ ext"
  unfolding reconcile_unfold by (auto split: if_splits)

lemma main_continues_replay:
  assumes p: "push_events_of events = first # rest"
    and i: "init_repo ok d (created_at first) [] = (Inr u, tr1)"
  shows "\<exists>ext. log (main ok d (Fetched events)) =
           snd (replay_events ok (push_events_of events) init_alloc tr1) @ ext"
proof -
  note stages = main_stages [OF p, of ok d]
  obtain r2 tr2 where l: "replay_events ok (first # rest) init_alloc tr1 = (r2, tr2)"
    by (cases "replay_events ok (first # rest) init_alloc tr1")
  have goal: ?thesis if "\<exists>ext. log (main ok d (Fetched events)) = tr2 @ ext"
    using that unfolding p l by simp
  show ?thesis
  proof (cases r2)
    case (Inl e)
    from stages(2) [OF i l [unfolded Inl]] show ?thesis by (intro goal) simp
  next
    case (Inr st)
    note l = l [unfolded Inr]
    obtain r3 tr3 where m: "reconcile ok (active_branches st) tr2 = (r3, tr3)"
      by (cases "reconcile ok (active_branches st) tr2")
    from reconcile_extends [OF m] obtain ext where e: "tr3 = tr2 @ ext" ..
    show ?thesis
    proof (cases r3)
      case (Inl e')
      from stages(3) [OF i l m [unfolded Inl]] e show ?thesis by (intro goal) simp
    next
      case (Inr v)
      from stages(4) [OF i l m [unfolded Inr]] e show ?thesis by (intro goal) simp
    qed
  qed
qed

text \<open>
  C8. The events that are replayed are the push events of the feed, in ascending order
  of \<open>created_at\<close>; events with the same \<open>created_at\<close> keep the order they have in the
  feed, and no event is lost or duplicated. The run depends on the feed only through
  this sorted list: running on the feed and running on the sorted list give the same
  result, and once the repository is initialised, the log of the run goes on with the
  replay of exactly this list, from the empty allocator state.
\<close>

theorem push_events_sorted_stable:
  "sorted (map created_at (push_events_of events))
   \<and> (\<forall>k. filter (\<lambda>e. created_at e = k) (push_events_of events)
          = filter (\<lambda>e. created_at e = k) (filter (\<lambda>e. event_type e = ''PushEvent'') events))
   \<and> mset (push_events_of events) = mset (filter (\<lambda>e. event_type e = ''PushEvent'') events)
   \<and> main ok d (Fetched events) = main ok d (Fetched (push_events_of events))
   \<and> (\<forall>first rest u tr1.
         push_events_of events = first # rest \<and>
         init_repo ok d (created_at first) [] = (Inr u, tr1) \<longrightarrow>
         (\<exists>ext. log (main ok d (Fetched events)) =
            snd (replay_events ok (push_events_of events) init_alloc tr1) @ ext))"
proof -
  have "sorted (map created_at (push_events_of events))
   \<and> (\<forall>k. filter (\<lambda>e. created_at e = k) (push_events_of events)
          = filter (\<lambda>e. created_at e = k) (filter (\<lambda>e. event_type e = ''PushEvent'') events))
   \<and> mset (push_events_of events) = mset (filter (\<lambda>e. event_type e = ''PushEvent'') events)"
    by (simp add: push_events_of_def sort_key_stable)
  with main_sorted_feed [of ok d events] main_continues_replay [of events _ _ ok d]
  show ?thesis by blast
qed

lemma out_of_order_sorted:
  "push_events_of out_of_order =
     push_at ''u/r1'' ''2024-01-01T10:00:00Z'' (Some [\<lparr>message = ''first''\<rparr>, \<lparr>message = ''second''\<rparr>])
     # [push_at ''u/r2'' ''2024-01-02T10:00:00Z'' None,
        push_at ''u/r1'' ''2024-01-03T10:00:00Z'' (Some [\<lparr>message = ''third''\<rparr>])]"
  by code_simp

lemma init_all_ok:
  "init_repo all_ok False (created_at (push_at r ''2024-01-01T10:00:00Z'' cs)) [] = (Inr (), init_log)"
  by (simp add: init_repo_def run_cmd_def all_ok_def init_log_def push_at_def)

theorem push_events_sorted_stable_witness:
  "push_events_of out_of_order =
     push_at ''u/r1'' ''2024-01-01T10:00:00Z'' (Some [\<lparr>message = ''first''\<rparr>, \<lparr>message = ''second''\<rparr>])
     # [push_at ''u/r2'' ''2024-01-02T10:00:00Z'' None,
        push_at ''u/r1'' ''2024-01-03T10:00:00Z'' (Some [\<lparr>message = ''third''\<rparr>])]
   \<and> init_repo all_ok False
        (created_at (push_at ''u/r1'' ''2024-01-01T10:00:00Z''
           (Some [\<lparr>message = ''first''\<rparr>, \<lparr>message = ''second''\<rparr>]))) [] = (Inr (), init_log)
   \<and> (\<exists>ext. log (main all_ok False (Fetched out_of_order)) =
          snd (replay_events all_ok (push_events_of out_of_order) init_alloc init_log) @ ext)
   \<and> snd (replay_events all_ok (push_events_of out_of_order) init_alloc init_log) =
       init_log @
       [(GitCheckout ''main'', True), (GitCheckoutB ''r1'', True),
        (GitCommit ''r1: first'' ''2024-01-01T10:00:00Z'', True),
        (GitCommit ''r1: second'' ''2024-01-01T10:00:00Z'', True),
        (GitCheckout ''main'', True), (GitCheckoutB ''r2'', True),
        (GitCommit ''r2: Update'' ''2024-01-02T10:00:00Z'', True),
        (GitCheckout ''r1'', True),
        (GitCommit ''r1: third'' ''2024-01-03T10:00:00Z'', True)]"
proof -
  have r: "snd (replay_events all_ok (push_events_of out_of_order) init_alloc init_log) =
       init_log @
       [(GitCheckout ''main'', True), (GitCheckoutB ''r1'', True),
        (GitCommit ''r1: first'' ''2024-01-01T10:00:00Z'', True),
        (GitCommit ''r1: second'' ''2024-01-01T10:00:00Z'', True),
        (GitCheckout ''main'', True), (GitCheckoutB ''r2'', True),
        (GitCommit ''r2: Update'' ''2024-01-02T10:00:00Z'', True),
        (GitCheckout ''r1'', True),
        (GitCommit ''r1: third'' ''2024-01-03T10:00:00Z'', True)]"
    by code_simp
  from push_events_sorted_stable [of out_of_order all_ok False] out_of_order_sorted
    init_all_ok [of "''u/r1''" "Some [\<lparr>message = ''first''\<rparr>, \<lparr>message = ''second''\<rparr>]"] r
  show ?thesis by blast
qed

subsection \<open>The run ends with the merge of the active timelines\<close>

lemma replay_events_no_merge:
  "replay_events ok evs st tr = (r, tr') \<Longrightarrow>
     \<exists>ext. tr' = tr @ ext \<and> filter (\<lambda>(c, b). is_merge c) ext = []"
proof (induction evs arbitrary: st tr)
  case Nil
  then show ?case by simp
next
  case (Cons ev evs)
  obtain q tr1 where p: "process_event ok ev st tr = (q, tr1)"
    by (cases "process_event ok ev st tr")
  from process_event_ext [OF p] obtain e1 where
    e1: "tr1 = tr @ e1" "step_log (created_at ev) e1" by auto
  have "\<not> is_merge c" if "step_op ts c" for ts c using that by (cases c) auto
  with e1(2) have n1: "filter (\<lambda>(c, b). is_merge c) e1 = []"
    unfolding step_log_def by (auto simp: filter_empty_conv list_all_iff)
  show ?case
  proof (cases q)
    case (Inl e)
    with Cons.prems p have "tr' = tr1" by simp
    with e1(1) n1 show ?thesis by blast
  next
    case (Inr st1)
    with Cons.prems p have "replay_events ok evs st1 tr1 = (r, tr')" by simp
    from Cons.IH [OF this] obtain e2 where
      e2: "tr' = tr1 @ e2" "filter (\<lambda>(c, b). is_merge c) e2 = []" by blast
    with e1(1) n1 have "tr' = tr @ (e1 @ e2) \<and> filter (\<lambda>(c, b). is_merge c) (e1 @ e2) = []"
      by simp
    then show ?thesis by blast
  qed
qed

lemma init_repo_no_merge:
  assumes "init_repo ok de d [] = (r, tr')"
  shows "filter (\<lambda>(c, b). is_merge c) tr' = []"
proof -
  from init_repo_ext [OF assms] obtain ext where
    e: "tr' = ext" "fst ` set ext \<subseteq> set (init_ops de d)" by auto
  with init_ops_no_merge [of de d] show ?thesis
    by (auto simp: filter_empty_conv)
qed

lemma replay_nonempty_active:
  assumes "replay_events ok (ev # rest) init_alloc tr = (Inr st', tr')"
  shows "active_branches st' \<noteq> {||}"
proof -
  from assms obtain st1 tr1 where
    s: "process_event ok ev init_alloc tr = (Inr st1, tr1)" and
    r: "replay_events ok rest st1 tr1 = (Inr st', tr')"
    unfolding replay_events_Cons_Inr by blast
  have e1: "sets_eq st1" using s init_alloc_invs(1) by (rule process_event_sets_eq)
  have a1: "all_recorded st1 tr1" using s init_alloc_invs(2) by (rule process_event_all_recorded)
  from replay_events_invs [OF r e1 a1] have "active_branches st1 |\<subseteq>| active_branches st'"
    by simp
  with first_event_active [OF s] show ?thesis by auto
qed

lemma run_reconciles:
  assumes p: "push_events_of events = first # rest"
    and i: "init_repo ok d (created_at first) [] = (Inr u, tr1)"
    and l: "replay_events ok (first # rest) init_alloc tr1 = (Inr st, tr2)"
  shows "active_branches st \<noteq> {||}"
    and "filter (\<lambda>(c, b). is_merge c) tr2 = []"
    and "main ok d (Fetched events) =
          (if ok tr2 (GitCheckout ''main'')
           then \<lparr>outcome = None,
                 log = tr2 @ [(GitCheckout ''main'', True),
                   (GitMerge (sorted_list_of_fset (active_branches st)),
                    ok (tr2 @ [(GitCheckout ''main'', True)])
                       (GitMerge (sorted_list_of_fset (active_branches st))))]\<rparr>
           else \<lparr>outcome = Some (AdapterError (GitCheckout ''main'')),
                 log = tr2 @ [(GitCheckout ''main'', False)]\<rparr>)"
proof -
  show ne: "active_branches st \<noteq> {||}" using l by (rule replay_nonempty_active)
  from replay_events_no_merge [OF l] init_repo_no_merge [OF i]
  show "filter (\<lambda>(c, b). is_merge c) tr2 = []" by auto
  note stages = main_stages [OF p, of ok d]
  show "main ok d (Fetched events) =
          (if ok tr2 (GitCheckout ''main'')
           then \<lparr>outcome = None,
                 log = tr2 @ [(GitCheckout ''main'', True),
                   (GitMerge (sorted_list_of_fset (active_branches st)),
                    ok (tr2 @ [(GitCheckout ''main'', True)])
                       (GitMerge (sorted_list_of_fset (active_branches st))))]\<rparr>
           else \<lparr>outcome = Some (AdapterError (GitCheckout ''main'')),
                 log = tr2 @ [(GitCheckout ''main'', False)]\<rparr>)"
  proof (cases "ok tr2 (GitCheckout ''main'')")
    case True
    with ne have m: "reconcile ok (active_branches st) tr2 =
        (Inr (), tr2 @ [(GitCheckout ''main'', True),
                   (GitMerge (sorted_list_of_fset (active_branches st)),
                    ok (tr2 @ [(GitCheckout ''main'', True)])
                       (GitMerge (sorted_list_of_fset (active_branches st))))])"
      unfolding reconcile_unfold by simp
    from stages(4) [OF i l m] True show ?thesis by simp
  next
    case False
    then have m: "reconcile ok (active_branches st) tr2 =
        (Inl (AdapterError (GitCheckout ''main'')), tr2 @ [(GitCheckout ''main'', False)])"
      unfolding reconcile_unfold by simp
    from stages(3) [OF i l m] False show ?thesis by simp
  qed
qed

text \<open>
  C9. The final merge first issues the switch to \<open>main\<close>. If that switch fails the run
  stops there; otherwise, when \<open>active_branches\<close> is empty nothing more is issued, and
  when it is not, exactly one merge follows, whose arguments are the members of
  \<open>active_branches\<close>, each once, in ascending lexicographic order. The merge may
  succeed or fail (\<open>b\<close>); either way the step returns normally.

  In a run: after the replay of a feed with at least one push event has succeeded,
  the allocator's \<open>active_branches\<close> is not empty, the log so far holds no merge, and
  the run ends with the switch to \<open>main\<close> followed, if the switch succeeded, by the one
  merge of the sorted \<open>active_branches\<close> of the allocator; nothing else is issued.
\<close>

theorem reconcile_ops:
  "(\<exists>b. reconcile ok active tr =
     (if \<not> ok tr (GitCheckout ''main'')
      then (Inl (AdapterError (GitCheckout ''main'')), tr @ [(GitCheckout ''main'', False)])
      else if active = {||} then (Inr (), tr @ [(GitCheckout ''main'', True)])
      else (Inr (), tr @ [(GitCheckout ''main'', True),
                          (GitMerge (sorted_list_of_fset active), b)])))
   \<and> set (sorted_list_of_fset active) = fset active
   \<and> sorted (sorted_list_of_fset active) \<and> distinct (sorted_list_of_fset active)
   \<and> (\<forall>events first rest u tr1 st tr2.
         push_events_of events = first # rest \<and>
         init_repo ok d (created_at first) [] = (Inr u, tr1) \<and>
         replay_events ok (first # rest) init_alloc tr1 = (Inr st, tr2) \<longrightarrow>
           active_branches st \<noteq> {||}
           \<and> filter (\<lambda>(c, b). is_merge c) tr2 = []
           \<and> main ok d (Fetched events) =
               (if ok tr2 (GitCheckout ''main'')
                then \<lparr>outcome = None,
                      log = tr2 @ [(GitCheckout ''main'', True),
                        (GitMerge (sorted_list_of_fset (active_branches st)),
                         ok (tr2 @ [(GitCheckout ''main'', True)])
                            (GitMerge (sorted_list_of_fset (active_branches st))))]\<rparr>
                else \<lparr>outcome = Some (AdapterError (GitCheckout ''main'')),
                      log = tr2 @ [(GitCheckout ''main'', False)]\<rparr>))"
proof -
  have a: "\<exists>b. reconcile ok active tr =
     (if \<not> ok tr (GitCheckout ''main'')
      then (Inl (AdapterError (GitCheckout ''main'')), tr @ [(GitCheckout ''main'', False)])
      else if active = {||} then (Inr (), tr @ [(GitCheckout ''main'', True)])
      else (Inr (), tr @ [(GitCheckout ''main'', True),
                          (GitMerge (sorted_list_of_fset active), b)]))"
    using reconcile_unfold [of ok active tr] by auto
  have b: "set (sorted_list_of_fset active) = fset active" by simp
  have c: "sorted (sorted_list_of_fset active)" and d: "distinct (sorted_list_of_fset active)"
    using sorted_list_of_fset_sorted [of active] by simp_all
  have r: "active_branches st \<noteq> {||}
           \<and> filter (\<lambda>(c, b). is_merge c) tr2 = []
           \<and> main ok d (Fetched events) =
               (if ok tr2 (GitCheckout ''main'')
                then \<lparr>outcome = None,
                      log = tr2 @ [(GitCheckout ''main'', True),
                        (GitMerge (sorted_list_of_fset (active_branches st)),
                         ok (tr2 @ [(GitCheckout ''main'', True)])
                            (GitMerge (sorted_list_of_fset (active_branches st))))]\<rparr>
                else \<lparr>outcome = Some (AdapterError (GitCheckout ''main'')),
                      log = tr2 @ [(GitCheckout ''main'', False)]\<rparr>)"
    if "push_events_of events = first # rest \<and>
         init_repo ok d (created_at first) [] = (Inr u, tr1) \<and>
         replay_events ok (first # rest) init_alloc tr1 = (Inr st, tr2)"
    for events first rest u tr1 st tr2
  proof -
    from that have p: "push_events_of events = first # rest"
      and i: "init_repo ok d (created_at first) [] = (Inr u, tr1)"
      and l: "replay_events ok (first # rest) init_alloc tr1 = (Inr st, tr2)"
      by (rule conjunct1, rule conjunct2 [THEN conjunct1], rule conjunct2 [THEN conjunct2])
    from run_reconciles(1) [OF p i l] run_reconciles(2) [OF p i l] run_reconciles(3) [OF p i l]
    show ?thesis by (intro conjI)
  qed
  show ?thesis
    apply (intro conjI allI impI)
          apply (rule a)
         apply (rule b)
        apply (rule c)
       apply (rule d)
      apply (erule r [THEN conjunct1])
     apply (erule r [THEN conjunct2, THEN conjunct1])
    apply (erule r [THEN conjunct2, THEN conjunct2])
    done
qed

lemma two_projects_sorted:
  "push_events_of two_projects =
     push_at ''u/zeta'' ''2024-01-01T10:00:00Z'' (Some [\<lparr>message = ''first''\<rparr>])
     # [push_at ''u/alpha'' ''2024-01-02T10:00:00Z'' (Some [\<lparr>message = ''second''\<rparr>])]"
  by code_simp

lemma two_projects_replay:
  "replay_events all_ok
     (push_at ''u/zeta'' ''2024-01-01T10:00:00Z'' (Some [\<lparr>message = ''first''\<rparr>])
      # [push_at ''u/alpha'' ''2024-01-02T10:00:00Z'' (Some [\<lparr>message = ''second''\<rparr>])])
     init_alloc init_log = (Inr two_branches, two_projects_log)"
  by (simp add: process_event_def push_at_def dropped_def init_alloc_def
        MAX_REPOS_def fcard_finsert_if fcard_fempty manage_branch_def run_cmd_def all_ok_def
        commits_of_def short_name_of_def str_split_def first_line_def two_branches_def
        two_projects_log_def Let_def)

lemma two_branches_sorted: "sorted_list_of_fset (active_branches two_branches) = [''alpha'', ''zeta'']"
  by code_simp

theorem reconcile_ops_witness:
  "push_events_of two_projects =
     push_at ''u/zeta'' ''2024-01-01T10:00:00Z'' (Some [\<lparr>message = ''first''\<rparr>])
     # [push_at ''u/alpha'' ''2024-01-02T10:00:00Z'' (Some [\<lparr>message = ''second''\<rparr>])]
   \<and> init_repo all_ok False
        (created_at (push_at ''u/zeta'' ''2024-01-01T10:00:00Z'' (Some [\<lparr>message = ''first''\<rparr>]))) []
       = (Inr (), init_log)
   \<and> replay_events all_ok
       (push_at ''u/zeta'' ''2024-01-01T10:00:00Z'' (Some [\<lparr>message = ''first''\<rparr>])
        # [push_at ''u/alpha'' ''2024-01-02T10:00:00Z'' (Some [\<lparr>message = ''second''\<rparr>])])
       init_alloc init_log = (Inr two_branches, two_projects_log)
   \<and> main all_ok False (Fetched two_projects) =
       \<lparr>outcome = None,
        log = two_projects_log @
          [(GitCheckout ''main'', True), (GitMerge [''alpha'', ''zeta''], True)]\<rparr>"
proof -
  note i = init_all_ok [of "''u/zeta''" "Some [\<lparr>message = ''first''\<rparr>]"]
  from reconcile_ops [of all_ok "{||}" "[]" False] two_projects_sorted i two_projects_replay
  have "main all_ok False (Fetched two_projects) =
      (if all_ok two_projects_log (GitCheckout ''main'')
       then \<lparr>outcome = None,
             log = two_projects_log @ [(GitCheckout ''main'', True),
               (GitMerge (sorted_list_of_fset (active_branches two_branches)),
                all_ok (two_projects_log @ [(GitCheckout ''main'', True)])
                   (GitMerge (sorted_list_of_fset (active_branches two_branches))))]\<rparr>
       else \<lparr>outcome = Some (AdapterError (GitCheckout ''main'')),
             log = two_projects_log @ [(GitCheckout ''main'', False)]\<rparr>)"
    by blast
  then have "main all_ok False (Fetched two_projects) =
       \<lparr>outcome = None,
        log = two_projects_log @
          [(GitCheckout ''main'', True), (GitMerge [''alpha'', ''zeta''], True)]\<rparr>"
    unfolding two_branches_sorted by (simp add: all_ok_def)
  with two_projects_sorted i two_projects_replay show ?thesis by blast
qed

end
